theory Spec2Isabelle
  imports Main "HOL-Library.Word"
begin

unbundle bit_operations_syntax

section \<open>Mercury Concurrency Engine: scheduler, threadpool, channels, await\<close>

text \<open>
  A shallow embedding of the parts of the library that the properties below are about.
  Naming: an identifier cannot end in an underscore, so a private member or method
  \<^verbatim>\<open>x_\<close> of the C++ source is written \<open>x'\<close> here (\<^verbatim>\<open>weight_\<close> is \<open>weight'\<close>,
  \<^verbatim>\<open>send_\<close> is \<open>send'\<close>). \<^verbatim>\<open>size_t\<close> is the 64-bit unsigned word of the LP64
  targets; arithmetic on it wraps.
\<close>

type_synonym size_t = "64 word"

subsection \<open>scheduler::measurement (scheduler.hpp)\<close>

text \<open>
  \<^verbatim>\<open>size_width = sizeof(size_t) * 8\<close>, \<^verbatim>\<open>half_width = size_width / 2\<close>,
  \<^verbatim>\<open>right_mask = SIZE_MAX >> half_width\<close>, \<^verbatim>\<open>left_mask = SIZE_MAX << half_width\<close>.
\<close>

definition size_width :: nat where
  "size_width = 8 * 8"

definition half_width :: nat where
  "half_width = size_width div 2"

definition right_mask :: size_t where
  "right_mask = drop_bit half_width (- 1)"

definition left_mask :: size_t where
  "left_mask = push_bit half_width (- 1)"

record measurement_t =
  weight' :: size_t

text \<open>The default constructor: \<^verbatim>\<open>measurement() : weight_(0)\<close>.\<close>

definition measurement0 :: measurement_t where
  "measurement0 = \<lparr> weight' = 0 \<rparr>"

text \<open>
  \<^verbatim>\<open>measurement(size_t enqueued, size_t scheduled)\<close>: each count is clamped to
  \<^verbatim>\<open>right_mask\<close>, the enqueued count is shifted into the upper half.
\<close>

definition measurement :: "size_t \<Rightarrow> size_t \<Rightarrow> measurement_t" where
  "measurement enq sch = \<lparr> weight' =
     push_bit half_width (if enq > right_mask then right_mask else enq) OR
     (if sch > right_mask then right_mask else sch) \<rparr>"

text \<open>\<^verbatim>\<open>operator ==\<close>, \<^verbatim>\<open>operator <\<close>, \<^verbatim>\<open>operator <=\<close> and \<^verbatim>\<open>operator size_t\<close>.\<close>

definition measurement_eq :: "measurement_t \<Rightarrow> measurement_t \<Rightarrow> bool" where
  "measurement_eq lhs rhs = (weight' lhs = weight' rhs)"

definition measurement_less :: "measurement_t \<Rightarrow> measurement_t \<Rightarrow> bool" where
  "measurement_less lhs rhs = (weight' lhs < weight' rhs)"

definition measurement_less_eq :: "measurement_t \<Rightarrow> measurement_t \<Rightarrow> bool" where
  "measurement_less_eq lhs rhs = (weight' lhs \<le> weight' rhs)"

definition measurement_size_t :: "measurement_t \<Rightarrow> size_t" where
  "measurement_size_t m = weight' m"

definition scheduled :: "measurement_t \<Rightarrow> size_t" where
  "scheduled m = weight' m AND right_mask"

definition enqueued :: "measurement_t \<Rightarrow> size_t" where
  "enqueued m = drop_bit half_width (weight' m AND left_mask)"

definition blocked :: "measurement_t \<Rightarrow> size_t" where
  "blocked m = scheduled m - enqueued m"

subsection \<open>lifecycle and scheduler (scheduler.hpp)\<close>

text \<open>
  \<^verbatim>\<open>enum state { ready, running, suspended, halted }\<close>; \<open>state_value\<close> is the integer
  value of an enumerator, which \<^verbatim>\<open>can_continue_\<close> compares.
\<close>

datatype lifecycle_state = ready | running | suspended | halted

fun state_value :: "lifecycle_state \<Rightarrow> nat" where
  "state_value ready = 0"
| "state_value running = 1"
| "state_value suspended = 2"
| "state_value halted = 3"

text \<open>
  A coroutine is the script of what its thunk does from now on, one run slice after the
  other. In a slice it makes calls on the scheduler that runs it and then either returns
  from the thunk (\<open>Completes\<close>), raises (\<open>Throws\<close>), calls \<^verbatim>\<open>yield()\<close> (\<open>Yields\<close>) or
  requests to be parked through \<^verbatim>\<open>park::suspend\<close> (\<open>Parks\<close>); \<open>Finished\<close> is a
  coroutine whose thunk has returned (\<^verbatim>\<open>complete()\<close> is true). The arguments of
  \<^verbatim>\<open>schedule\<close> are allocated coroutines (a \<^verbatim>\<open>std::unique_ptr\<close>, possibly null),
  containers of them, and last a Callable with its bind arguments, given here by the
  coroutine that \<^verbatim>\<open>coroutine::make\<close> builds from them.
\<close>

datatype coroutine =
    Finished
  | Completes "call list"
  | Throws "call list"
  | Yields "call list" coroutine
  | Parks "call list" coroutine
and call =
    Call_suspend
  | Call_resume
  | Call_halt
  | Call_schedule sched_arg "sched_arg list"
and sched_arg =
    Arg_coroutine "coroutine option"
  | Arg_container "coroutine option list"
  | Arg_callable coroutine

text \<open>\<^verbatim>\<open>coroutine::complete()\<close>.\<close>

fun complete :: "coroutine \<Rightarrow> bool" where
  "complete Finished = True"
| "complete _ = False"

text \<open>
  The members of \<^verbatim>\<open>scheduler\<close>. The condition variables carry no state of their own;
  \<^verbatim>\<open>tasks_available_park_\<close> and \<^verbatim>\<open>park_continuation_\<close> are pointers, of which only
  being null or not is read; \<^verbatim>\<open>halt_complete_waiters_\<close> holds the addresses of the
  parkables of coroutines blocked in \<^verbatim>\<open>halt()\<close>.
\<close>

record scheduler =
  state' :: lifecycle_state
  halt_complete' :: bool
  scheduled' :: size_t
  waiting_for_resume' :: bool
  waiting_for_tasks' :: bool
  tasks_available_park' :: bool
  halt_complete_waiters' :: "nat list"
  park_continuation' :: bool
  task_queue' :: "coroutine list"

definition reset_flags' :: "scheduler \<Rightarrow> scheduler" where
  "reset_flags' s = s\<lparr> halt_complete' := False, waiting_for_resume' := False,
     waiting_for_tasks' := False, tasks_available_park' := False \<rparr>"

text \<open>The constructor \<^verbatim>\<open>scheduler(root)\<close>, as \<^verbatim>\<open>scheduler::make\<close> calls it.\<close>

definition scheduler_make :: scheduler where
  "scheduler_make = reset_flags' \<lparr> state' = ready, halt_complete' = False, scheduled' = 0,
     waiting_for_resume' = False, waiting_for_tasks' = False, tasks_available_park' = False,
     halt_complete_waiters' = [], park_continuation' = False, task_queue' = [] \<rparr>"

definition can_continue' :: "scheduler \<Rightarrow> bool" where
  "can_continue' s = (state_value (state' s) < state_value suspended)"

definition clear_task_queue' :: "scheduler \<Rightarrow> scheduler" where
  "clear_task_queue' s = s\<lparr> task_queue' := [] \<rparr>"

definition resume_notify' :: "scheduler \<Rightarrow> scheduler" where
  "resume_notify' s = (if waiting_for_resume' s then s\<lparr> waiting_for_resume' := False \<rparr> else s)"

definition update_running_state' :: "scheduler \<Rightarrow> scheduler" where
  "update_running_state' s = (if state' s = ready then s\<lparr> state' := running \<rparr> else s)"

text \<open>
  \<^verbatim>\<open>tasks_available_notify_\<close>: the waiter is unparked or its condition variable is
  notified; in both branches the flag is cleared and the parkable pointer is null after.
\<close>

definition tasks_available_notify' :: "scheduler \<Rightarrow> scheduler" where
  "tasks_available_notify' s =
     (if waiting_for_tasks' s
      then (if tasks_available_park' s
            then s\<lparr> waiting_for_tasks' := False, tasks_available_park' := False \<rparr>
            else s\<lparr> waiting_for_tasks' := False \<rparr>)
      else s)"

definition schedule_coroutine' :: "coroutine option \<Rightarrow> scheduler \<Rightarrow> scheduler" where
  "schedule_coroutine' c s =
     (case c of
        None \<Rightarrow> s
      | Some co \<Rightarrow> s\<lparr> scheduled' := scheduled' s + 1, task_queue' := task_queue' s @ [co] \<rparr>)"

text \<open>
  The overloads of \<^verbatim>\<open>schedule_\<close>: no argument left notifies the waiting \<^verbatim>\<open>run()\<close>; a
  coroutine is enqueued and the rest handled; a container is enqueued in its order and
  the rest handled; a Callable takes all the arguments after it as its own.
\<close>

fun schedule' :: "sched_arg list \<Rightarrow> scheduler \<Rightarrow> scheduler" where
  "schedule' [] s = tasks_available_notify' s"
| "schedule' (Arg_coroutine c # as) s = schedule' as (schedule_coroutine' c s)"
| "schedule' (Arg_container cs # as) s = schedule' as (fold schedule_coroutine' cs s)"
| "schedule' (Arg_callable co # as) s =
     tasks_available_notify' (schedule_coroutine' (Some co) s)"

text \<open>The public \<^verbatim>\<open>schedule(A&& a, As&&... as)\<close>.\<close>

definition schedule :: "sched_arg \<Rightarrow> sched_arg list \<Rightarrow> scheduler \<Rightarrow> scheduler" where
  "schedule a as s = (if state' s \<noteq> halted then schedule' (a # as) s else s)"

text \<open>
  \<^verbatim>\<open>measure()\<close>: the queue length and the scheduled count, packed (\<open>measure\<close> is a
  constant of HOL, hence the suffix).
\<close>

definition measure_sch :: "scheduler \<Rightarrow> measurement_t" where
  "measure_sch s = measurement (of_nat (length (task_queue' s))) (scheduled' s)"

text \<open>\<^verbatim>\<open>suspend_impl\<close> (with the value it returns) and \<^verbatim>\<open>resume_impl\<close>.\<close>

definition suspend_impl :: "scheduler \<Rightarrow> bool \<times> scheduler" where
  "suspend_impl s =
     (if state' s = halted then (False, s)
      else (True, tasks_available_notify' (s\<lparr> state' := suspended \<rparr>)))"

definition resume_impl :: "scheduler \<Rightarrow> scheduler" where
  "resume_impl s =
     (if state' s = suspended then resume_notify' (s\<lparr> state' := ready \<rparr>) else s)"

text \<open>
  \<^verbatim>\<open>halt_impl\<close>, by who calls it. From a coroutine of this scheduler it sets the state
  and yields. From elsewhere it also notifies the waiting \<^verbatim>\<open>run()\<close> and then blocks
  until \<^verbatim>\<open>halt_complete_\<close>: a coroutine of another scheduler on a parkable that it
  queues, a plain thread on the condition variable.
\<close>

datatype caller = From_coroutine nat | From_thread

definition halt_impl_within :: "scheduler \<Rightarrow> scheduler" where
  "halt_impl_within s = resume_notify' (s\<lparr> state' := halted \<rparr>)"

definition halt_impl_outside :: "caller \<Rightarrow> scheduler \<Rightarrow> scheduler" where
  "halt_impl_outside who s =
     (let s1 = tasks_available_notify' (resume_notify' (s\<lparr> state' := halted \<rparr>))
      in case who of
           From_coroutine p \<Rightarrow>
             (if \<not> halt_complete' s1
              then s1\<lparr> halt_complete_waiters' := halt_complete_waiters' s1 @ [p] \<rparr>
              else s1)
         | From_thread \<Rightarrow> s1)"

text \<open>
  The calls a coroutine makes on its own scheduler during one slice, in order. A call of
  \<^verbatim>\<open>halt()\<close> yields: the slice ends there and the calls after it are what is left of
  the slice (the second component).
\<close>

fun co_calls :: "call list \<Rightarrow> scheduler \<Rightarrow> scheduler \<times> call list option" where
  "co_calls [] s = (s, None)"
| "co_calls (Call_suspend # cs) s = co_calls cs (snd (suspend_impl s))"
| "co_calls (Call_resume # cs) s = co_calls cs (resume_impl s)"
| "co_calls (Call_halt # cs) s = (halt_impl_within s, Some cs)"
| "co_calls (Call_schedule a as # cs) s = co_calls cs (schedule a as s)"

text \<open>
  \<^verbatim>\<open>coroutine::run()\<close> on the scheduler's thread: how the slice ended, what is left of
  the coroutine, and the scheduler after the calls of the slice. \<^verbatim>\<open>park::suspend\<close>
  sets \<^verbatim>\<open>park_continuation_\<close> before it yields; a complete coroutine returns at once.
\<close>

datatype slice_end = Slice_returned | Slice_threw

fun coroutine_run :: "coroutine \<Rightarrow> scheduler \<Rightarrow> slice_end \<times> coroutine \<times> scheduler" where
  "coroutine_run Finished s = (Slice_returned, Finished, s)"
| "coroutine_run (Completes cs) s =
     (case co_calls cs s of
        (s1, None) \<Rightarrow> (Slice_returned, Finished, s1)
      | (s1, Some rest) \<Rightarrow> (Slice_returned, Completes rest, s1))"
| "coroutine_run (Throws cs) s =
     (case co_calls cs s of
        (s1, None) \<Rightarrow> (Slice_threw, Finished, s1)
      | (s1, Some rest) \<Rightarrow> (Slice_returned, Throws rest, s1))"
| "coroutine_run (Yields cs k) s =
     (case co_calls cs s of
        (s1, None) \<Rightarrow> (Slice_returned, k, s1)
      | (s1, Some rest) \<Rightarrow> (Slice_returned, Yields rest k, s1))"
| "coroutine_run (Parks cs k) s =
     (case co_calls cs s of
        (s1, None) \<Rightarrow> (Slice_returned, k, s1\<lparr> park_continuation' := True \<rparr>)
      | (s1, Some rest) \<Rightarrow> (Slice_returned, Parks rest k, s1))"

text \<open>
  What other threads and the coroutines of other schedulers do to this scheduler while
  its lock is free: a window is the list of their calls, in the order they take the lock.
\<close>

type_synonym window = "(caller \<times> call) list"

fun apply_call :: "caller \<times> call \<Rightarrow> scheduler \<Rightarrow> scheduler" where
  "apply_call (who, Call_suspend) s = snd (suspend_impl s)"
| "apply_call (who, Call_resume) s = resume_impl s"
| "apply_call (who, Call_halt) s = halt_impl_outside who s"
| "apply_call (who, Call_schedule a as) s = schedule a as s"

definition apply_window :: "window \<Rightarrow> scheduler \<Rightarrow> scheduler" where
  "apply_window w s = fold apply_call w s"

text \<open>
  The lambda \<^verbatim>\<open>execute_co\<close> of \<^verbatim>\<open>run()\<close>, which calls it when the queue is not
  empty; \<open>cur_co\<close> is \<^verbatim>\<open>task_queue_.front()\<close>. The coroutine runs one slice with the
  lock released (the window \<open>w\<close> is what the others do in the meantime; they and the
  coroutine push at the back of the queue only, so that the front is still \<open>cur_co\<close>
  after it); then it is popped and handed to the park continuation, or deleted when
  complete, or pushed at the back. An exception of the coroutine leaves \<^verbatim>\<open>run()\<close>
  through its handler.
\<close>

datatype error = Uncaught_exception

definition execute_co :: "scheduler \<Rightarrow> coroutine \<Rightarrow> window \<Rightarrow> error + scheduler" where
  "execute_co s cur_co w =
     (case coroutine_run cur_co s of
        (Slice_threw, _, _) \<Rightarrow> Inl Uncaught_exception
      | (Slice_returned, co, s1) \<Rightarrow>
          (let s2 = apply_window w s1 in
           if park_continuation' s2
           then Inr (s2\<lparr> park_continuation' := False, task_queue' := tl (task_queue' s2) \<rparr>)
           else if complete co
           then Inr (s2\<lparr> task_queue' := tl (task_queue' s2), scheduled' := scheduled' s2 - 1 \<rparr>)
           else Inr (s2\<lparr> task_queue' := tl (task_queue' s2) @ [co] \<rparr>)))"

text \<open>
  \<^verbatim>\<open>tasks_available_wait_\<close> and \<^verbatim>\<open>tasks_available_child_wait_\<close>: the flag is set, the
  caller of \<^verbatim>\<open>run()\<close> sleeps through one window, and the state is updated on wake-up.
\<close>

definition tasks_available_wait' :: "bool \<Rightarrow> scheduler \<Rightarrow> window \<Rightarrow> scheduler" where
  "tasks_available_wait' child s w =
     update_running_state'
       (apply_window w
          (if child then s\<lparr> waiting_for_tasks' := True, tasks_available_park' := True \<rparr>
           else s\<lparr> waiting_for_tasks' := True \<rparr>))"

text \<open>
  The evaluation loops of \<^verbatim>\<open>run()\<close>, against the list of windows of the environment:
  each turn of the loop takes the next window, and a child scheduler takes one more when
  it yields to its parent after a coroutine. The loop ends with \<open>Done\<close> when
  \<^verbatim>\<open>can_continue_()\<close> is false and with \<open>Rethrown\<close> when a coroutine raises;
  \<open>Unfinished\<close> says that the windows ran out first, that is, \<^verbatim>\<open>run()\<close> has not
  returned yet.
\<close>

datatype 'a progress = Done 'a | Rethrown | Unfinished

fun run_loop :: "bool \<Rightarrow> scheduler \<Rightarrow> window list \<Rightarrow> (scheduler \<times> window list) progress" where
  "run_loop child s [] = (if can_continue' s then Unfinished else Done (s, []))"
| "run_loop child s (w # env) =
     (if \<not> can_continue' s then Done (s, w # env)
      else case task_queue' s of
        cur_co # _ \<Rightarrow>
          (case execute_co s cur_co w of
             Inr s1 \<Rightarrow>
               (if child then
                  (case env of
                     [] \<Rightarrow> Unfinished
                   | w1 # env1 \<Rightarrow> run_loop child (apply_window w1 s1) env1)
                else run_loop child s1 env)
           | Inl e \<Rightarrow> Rethrown)
      | [] \<Rightarrow> run_loop child (tasks_available_wait' child s w) env)"

text \<open>\<^verbatim>\<open>while(state_ == lifecycle::state::suspended) { resume_wait_(lk); }\<close>\<close>

fun resume_wait_loop :: "scheduler \<Rightarrow> window list \<Rightarrow> (scheduler \<times> window list) progress" where
  "resume_wait_loop s [] = (if state' s = suspended then Unfinished else Done (s, []))"
| "resume_wait_loop s (w # env) =
     (if state' s = suspended
      then resume_wait_loop (apply_window w (s\<lparr> waiting_for_resume' := True \<rparr>)) env
      else Done (s, w # env))"

text \<open>
  What \<^verbatim>\<open>run()\<close> does after its loop: it returns true from the suspended state, and
  otherwise clears the queue, marks the halt complete, wakes every waiter of
  \<^verbatim>\<open>halt()\<close> and returns false.
\<close>

definition run_exit :: "scheduler \<Rightarrow> bool \<times> scheduler" where
  "run_exit s =
     (if state' s = suspended then (True, reset_flags' s)
      else (False, (clear_task_queue' s)\<lparr> halt_complete' := True, halt_complete_waiters' := [] \<rparr>))"

text \<open>
  \<^verbatim>\<open>run()\<close>; \<open>child\<close> says that another scheduler is already active on the thread.
  The loop is entered from the ready state only.
\<close>

definition run :: "bool \<Rightarrow> scheduler \<Rightarrow> window list \<Rightarrow> (bool \<times> scheduler \<times> window list) progress" where
  "run child s env =
     (case resume_wait_loop s env of
        Done (s1, env1) \<Rightarrow>
          (case (if state' s1 = ready then run_loop child (s1\<lparr> state' := running \<rparr>) env1
                 else Done (s1, env1)) of
             Done (s2, env2) \<Rightarrow> Done (fst (run_exit s2), snd (run_exit s2), env2)
           | Rethrown \<Rightarrow> Rethrown
           | Unfinished \<Rightarrow> Unfinished)
      | Rethrown \<Rightarrow> Rethrown
      | Unfinished \<Rightarrow> Unfinished)"

text \<open>
  Whether a call is made somewhere in a script: \<open>co_has t co\<close> says that the call \<open>t\<close>
  (\<open>Call_suspend\<close> or \<open>Call_halt\<close>) is among the calls of the coroutine \<open>co\<close> or of a
  coroutine that it schedules, \<open>queue_has\<close> that a coroutine of the run queue has it,
  \<open>window_has\<close> that a call of the window is it or schedules a coroutine that has it.
  \<open>enters t st\<close> pairs \<^verbatim>\<open>suspend()\<close> with the suspended state and \<^verbatim>\<open>halt()\<close> with the
  halted state.
\<close>

fun co_has :: "call \<Rightarrow> coroutine \<Rightarrow> bool"
  and call_has :: "call \<Rightarrow> call \<Rightarrow> bool"
  and arg_has :: "call \<Rightarrow> sched_arg \<Rightarrow> bool" where
  "co_has t Finished = False"
| "co_has t (Completes cs) = (\<exists>c \<in> set cs. call_has t c)"
| "co_has t (Throws cs) = (\<exists>c \<in> set cs. call_has t c)"
| "co_has t (Yields cs k) = ((\<exists>c \<in> set cs. call_has t c) \<or> co_has t k)"
| "co_has t (Parks cs k) = ((\<exists>c \<in> set cs. call_has t c) \<or> co_has t k)"
| "call_has t Call_suspend = (t = Call_suspend)"
| "call_has t Call_resume = (t = Call_resume)"
| "call_has t Call_halt = (t = Call_halt)"
| "call_has t (Call_schedule a as) = (arg_has t a \<or> (\<exists>x \<in> set as. arg_has t x))"
| "arg_has t (Arg_coroutine c) = (case c of None \<Rightarrow> False | Some co \<Rightarrow> co_has t co)"
| "arg_has t (Arg_container cs) =
     (\<exists>c \<in> set cs. case c of None \<Rightarrow> False | Some co \<Rightarrow> co_has t co)"
| "arg_has t (Arg_callable co) = co_has t co"


definition queue_has :: "call \<Rightarrow> scheduler \<Rightarrow> bool" where
  "queue_has t s = (\<exists>co \<in> set (task_queue' s). co_has t co)"

definition window_has :: "call \<Rightarrow> window \<Rightarrow> bool" where
  "window_has t w = (\<exists>x \<in> set w. call_has t (snd x))"

definition enters :: "call \<Rightarrow> lifecycle_state \<Rightarrow> bool" where
  "enters t st \<longleftrightarrow> (t = Call_suspend \<and> st = suspended) \<or> (t = Call_halt \<and> st = halted)"

subsection \<open>Thread-local state (scheduler.hpp, threadpool.cpp, await.cpp)\<close>

text \<open>
  Schedulers and threadpools are objects that several places point to; a pointer to one is
  its address, and \<open>None\<close> is the null pointer. The thread-local variables of a thread:
  \<^verbatim>\<open>tl_this_scheduler()\<close>, \<^verbatim>\<open>tl_this_scheduler_redirect()\<close>, \<^verbatim>\<open>tl_this_threadpool()\<close>
  and \<^verbatim>\<open>await_worker::tl_is_await()\<close>.
\<close>

record thread_locals =
  tl_this_scheduler :: "nat option"
  tl_this_scheduler_redirect :: "nat option"
  tl_this_threadpool :: "nat option"
  tl_is_await :: bool

definition in_scheduler :: "thread_locals \<Rightarrow> bool" where
  "in_scheduler tls = (tl_this_scheduler_redirect tls \<noteq> None)"

definition this_scheduler :: "thread_locals \<Rightarrow> nat option" where
  "this_scheduler tls = tl_this_scheduler_redirect tls"

definition in_threadpool :: "thread_locals \<Rightarrow> bool" where
  "in_threadpool tls = (tl_this_threadpool tls \<noteq> None)"

definition this_threadpool :: "thread_locals \<Rightarrow> nat option" where
  "this_threadpool tls = tl_this_threadpool tls"

definition is_await :: "thread_locals \<Rightarrow> bool" where
  "is_await tls = tl_is_await tls"

subsection \<open>threadpool (threadpool.hpp, threadpool.cpp)\<close>

text \<open>
  The members of \<^verbatim>\<open>threadpool\<close> that the worker selection reads: the vector
  \<^verbatim>\<open>workers_schedulers_\<close> of pointers to the workers' schedulers, which does not change
  after \<^verbatim>\<open>init_\<close>, and the rotating index. The schedulers themselves are in the heap,
  which maps an address to the scheduler there.
\<close>

record threadpool =
  workers_schedulers' :: "nat list"
  current_scheduler_idx_val' :: nat

text \<open>
  The constructor and \<^verbatim>\<open>init_\<close>: 0 workers asked for means
  \<^verbatim>\<open>std::thread::hardware_concurrency()\<close>, and at least 1; \<open>alloc i\<close> is the address of
  the scheduler that the \<open>i\<close>-th worker thread makes.
\<close>

definition threadpool_make :: "nat \<Rightarrow> nat \<Rightarrow> (nat \<Rightarrow> nat) \<Rightarrow> threadpool" where
  "threadpool_make worker_count hardware_concurrency alloc =
     (let n = (if worker_count = 0
               then (if hardware_concurrency = 0 then 1 else hardware_concurrency)
               else worker_count)
      in \<lparr> workers_schedulers' = map alloc [0..<n], current_scheduler_idx_val' = 0 \<rparr>)"

definition threadpool_size :: "threadpool \<Rightarrow> nat" where
  "threadpool_size tp = length (workers_schedulers' tp)"

text \<open>
  \<^verbatim>\<open>worker(size_t idx)\<close>: \<^verbatim>\<open>*(workers_schedulers_[idx])\<close>, which is undefined in C++
  when \<open>idx\<close> is not below the size (\<open>None\<close> here).
\<close>

definition worker_at :: "threadpool \<Rightarrow> nat \<Rightarrow> nat option" where
  "worker_at tp idx =
     (if idx < length (workers_schedulers' tp) then Some (workers_schedulers' tp ! idx) else None)"

text \<open>\<^verbatim>\<open>current_scheduler_idx_\<close>: the index to measure first, and the rotation.\<close>

definition current_scheduler_idx' :: "threadpool \<Rightarrow> nat \<times> threadpool" where
  "current_scheduler_idx' tp =
     (current_scheduler_idx_val' tp,
      if current_scheduler_idx_val' tp + 1 < length (workers_schedulers' tp)
      then tp\<lparr> current_scheduler_idx_val' := current_scheduler_idx_val' tp + 1 \<rparr>
      else tp\<lparr> current_scheduler_idx_val' := 0 \<rparr>)"

text \<open>
  The lambda \<^verbatim>\<open>compare\<close> of \<^verbatim>\<open>worker()\<close> over the workers from index \<open>i\<close> up to
  \<open>end\<close>, given as the list of their schedulers; the state is \<^verbatim>\<open>least_weight\<close>,
  \<^verbatim>\<open>ret\<close> and \<^verbatim>\<open>found_empty\<close>. A weight of 0 ends the scan.
\<close>

fun compare ::
  "(nat \<Rightarrow> scheduler) \<Rightarrow> nat list \<Rightarrow> measurement_t \<times> nat \<times> bool \<Rightarrow> measurement_t \<times> nat \<times> bool" where
  "compare h [] st = st"
| "compare h (a # as) (least_weight, ret, found_empty) =
     (let cur_weight = measure_sch (h a) in
      if measurement_size_t cur_weight \<noteq> 0
      then (if measurement_less cur_weight least_weight
            then compare h as (cur_weight, a, found_empty)
            else compare h as (least_weight, ret, found_empty))
      else (least_weight, a, True))"

text \<open>
  \<^verbatim>\<open>worker()\<close>, the least busy worker at the time of the call: the scan starts after
  the rotating index, runs to the end of the vector and, when no empty scheduler was
  found and the start was not 0, from 0 up to the start.
\<close>

definition worker :: "(nat \<Rightarrow> scheduler) \<Rightarrow> threadpool \<Rightarrow> (nat \<times> threadpool) option" where
  "worker h tp =
     (let (start_idx, tp1) = current_scheduler_idx' tp;
          ws = workers_schedulers' tp
      in if start_idx < length ws
         then (let first = ws ! start_idx;
                   st1 = compare h (drop (start_idx + 1) ws) (measure_sch (h first), first, False);
                   st2 = (if \<not> snd (snd st1) \<and> start_idx \<noteq> 0
                          then compare h (take start_idx ws) st1 else st1)
               in Some (fst (snd st2), tp1))
         else None)"

text \<open>
  The process: the schedulers in the heap and the default threadpool.
  \<^verbatim>\<open>default_threadpool_scheduler()\<close> is \<^verbatim>\<open>default_threadpool().worker(0)\<close>, taken once
  into a static reference.
\<close>

record process =
  heap :: "nat \<Rightarrow> scheduler"
  default_threadpool :: threadpool

definition default_threadpool_scheduler :: "process \<Rightarrow> nat option" where
  "default_threadpool_scheduler pr = worker_at (default_threadpool pr) 0"

definition concurrent_algorithm :: "thread_locals \<Rightarrow> process \<Rightarrow> nat option" where
  "concurrent_algorithm tls pr =
     (if in_scheduler tls then this_scheduler tls else default_threadpool_scheduler pr)"

text \<open>
  \<^verbatim>\<open>concurrent(args...)\<close>: \<^verbatim>\<open>detail::concurrent_algorithm().schedule(args...)\<close>, on
  the scheduler that the reference points to.
\<close>

definition concurrent ::
  "thread_locals \<Rightarrow> sched_arg \<Rightarrow> sched_arg list \<Rightarrow> process \<Rightarrow> process option" where
  "concurrent tls a as pr =
     (case concurrent_algorithm tls pr of
        None \<Rightarrow> None
      | Some sch \<Rightarrow> Some (pr\<lparr> heap := (heap pr)(sch := schedule a as (heap pr sch)) \<rparr>))"

subsection \<open>await (await.hpp, await.cpp)\<close>

text \<open>
  The members of \<^verbatim>\<open>await_threadpool\<close>; an \<^verbatim>\<open>await_worker\<close> is given by the address
  of its scheduler, which also names its thread.
\<close>

record await_threadpool =
  min_worker_cnt' :: size_t
  worker_cnt' :: size_t
  workers' :: "nat list"

text \<open>
  \<^verbatim>\<open>checkout_worker\<close> takes the first free worker or makes the worker \<open>fresh\<close>;
  \<^verbatim>\<open>checkin_worker\<close> keeps a worker while fewer than the minimum are free and lets it
  be destroyed otherwise.
\<close>

definition checkout_worker :: "nat \<Rightarrow> await_threadpool \<Rightarrow> nat \<times> await_threadpool" where
  "checkout_worker fresh tp =
     (case workers' tp of
        w # ws \<Rightarrow> (w, tp\<lparr> workers' := ws \<rparr>)
      | [] \<Rightarrow> (fresh, tp\<lparr> worker_cnt' := worker_cnt' tp + 1 \<rparr>))"

definition checkin_worker :: "nat \<Rightarrow> await_threadpool \<Rightarrow> await_threadpool" where
  "checkin_worker w tp =
     (if of_nat (length (workers' tp)) < min_worker_cnt' tp
      then tp\<lparr> workers' := workers' tp @ [w] \<rparr>
      else tp\<lparr> worker_cnt' := worker_cnt' tp - 1 \<rparr>)"

text \<open>
  A Callable acts on the state \<open>'s\<close> of the program, and what it does may depend on the
  thread that runs it and on that thread's thread-local variables. On an await worker
  the scheduler of the worker is the true scheduler, \<^verbatim>\<open>await_coroutine::run\<close> redirects
  \<^verbatim>\<open>this_scheduler()\<close> and \<^verbatim>\<open>this_threadpool()\<close> to those of the caller, and
  \<^verbatim>\<open>tl_is_await()\<close> is true.
\<close>

type_synonym ('s, 'r) callable = "nat \<Rightarrow> thread_locals \<Rightarrow> 's \<Rightarrow> 'r \<times> 's"

definition await_worker_locals :: "nat \<Rightarrow> thread_locals \<Rightarrow> thread_locals" where
  "await_worker_locals w tls =
     \<lparr> tl_this_scheduler = Some w,
       tl_this_scheduler_redirect = (if in_scheduler tls then this_scheduler tls else None),
       tl_this_threadpool = (if in_threadpool tls then this_threadpool tls else None),
       tl_is_await = True \<rparr>"

text \<open>
  \<^verbatim>\<open>await_threadpool::schedule(cb)\<close>, called on thread \<open>tid\<close>: inside a scheduler and
  not on an await worker, a worker is checked out, the Callable runs in a coroutine on
  the worker's thread while the caller is parked, and the worker is checked in; otherwise
  the Callable is called directly. The result is the state after the Callable and the
  pool after the call.
\<close>

definition await_schedule ::
  "nat \<Rightarrow> thread_locals \<Rightarrow> nat \<Rightarrow> ('s, unit) callable \<Rightarrow> 's \<times> await_threadpool
     \<Rightarrow> 's \<times> await_threadpool" where
  "await_schedule tid tls fresh cb = (\<lambda>(st, tp).
     if in_scheduler tls \<and> \<not> tl_is_await tls
     then (let (w, tp1) = checkout_worker fresh tp;
               st1 = snd (cb w (await_worker_locals w tls) st)
           in (st1, checkin_worker w tp1))
     else (snd (cb tid tls st), tp))"

text \<open>
  \<^verbatim>\<open>await_(std::false_type, cb, args...)\<close>: \<^verbatim>\<open>R r;\<close> is assigned by the scheduled
  lambda and returned (\<open>None\<close>: never assigned). \<^verbatim>\<open>await_(std::true_type, cb, args...)\<close>
  for a Callable that returns void: \<^verbatim>\<open>return 0\<close>.
\<close>

definition await_value ::
  "nat \<Rightarrow> thread_locals \<Rightarrow> nat \<Rightarrow> ('s, 'r) callable \<Rightarrow> 's \<times> await_threadpool
     \<Rightarrow> 'r option \<times> 's \<times> await_threadpool" where
  "await_value tid tls fresh cb = (\<lambda>(st, tp).
     (case await_schedule tid tls fresh
             (\<lambda>t l (r, s). ((), (Some (fst (cb t l s)), snd (cb t l s)))) ((None, st), tp) of
        ((r, st1), tp1) \<Rightarrow> (r, st1, tp1)))"

definition await_void ::
  "nat \<Rightarrow> thread_locals \<Rightarrow> nat \<Rightarrow> ('s, unit) callable \<Rightarrow> 's \<times> await_threadpool
     \<Rightarrow> int \<times> 's \<times> await_threadpool" where
  "await_void tid tls fresh cb = (\<lambda>(st, tp).
     (case await_schedule tid tls fresh cb (st, tp) of
        (st1, tp1) \<Rightarrow> (0, st1, tp1)))"

subsection \<open>Channels (base_channel.hpp, unbuffered_channel.hpp, buffered_channel.hpp)\<close>

text \<open>\<^verbatim>\<open>enum result { closed = 0, success, failure }\<close>\<close>

datatype result = closed | success | failure

text \<open>
  What a call does that its caller or the other coroutines can see: it takes and
  releases the channel's spinlock and calls \<^verbatim>\<open>mce::yield()\<close>. A call either returns
  a result or parks its caller (\<^verbatim>\<open>p.park(lk)\<close>, which releases the lock); a parked
  caller goes on, holding the lock again, after its parkable is unparked.
\<close>

datatype event = Lock | Unlock | Yield

datatype ctl = Return result | Park

text \<open>
  \<^verbatim>\<open>mce::yield()\<close> (coroutine.hpp): \<^verbatim>\<open>coroutine* c = detail::tl_this_coroutine();
  if(c) { c->yield(); }\<close>. It yields out of the coroutine that runs on the calling thread
  and has no effect on a thread that runs none; the result lists the coroutines that
  yield. \<open>yields_of\<close> reads this off the events of a call made on such a thread.
\<close>

definition yield :: "nat option \<Rightarrow> nat list" where
  "yield tl_this_coroutine = (case tl_this_coroutine of None \<Rightarrow> [] | Some c \<Rightarrow> [c])"

definition yields_of :: "nat option \<Rightarrow> event list \<Rightarrow> nat list" where
  "yields_of tl_this_coroutine tr =
     concat (map (\<lambda>e. if e = Yield then yield tl_this_coroutine else []) tr)"

text \<open>
  The stack frame of a blocked call, found by the address of its parkable \<^verbatim>\<open>p\<close>: the
  local \<^verbatim>\<open>failed\<close>, whether \<^verbatim>\<open>p.unpark\<close> was called, and for a receiver what was
  assigned to its \<^verbatim>\<open>r\<close> (nothing yet is \<open>None\<close>). The callbacks in the parked queues
  capture these by reference.
\<close>

record 'a frame =
  failed :: bool
  unparked :: bool
  r_slot :: "'a option"

text \<open>
  The members of \<^verbatim>\<open>unbuffered_channel_context\<close>, and with them the frames of the
  blocked callers. An entry of \<^verbatim>\<open>parked_send\<close> is the parkable of the sender and the
  value its \<^verbatim>\<open>s\<close> points to; an entry of \<^verbatim>\<open>parked_recv\<close> is the parkable of the
  receiver. Copying and moving give the receiver the same value, so \<^verbatim>\<open>is_rvalue\<close>
  is left out.
\<close>

record 'a unbuffered_channel_context =
  closed_flag :: bool
  parked_send :: "(nat \<times> 'a) list"
  parked_recv :: "nat list"
  frames :: "nat \<Rightarrow> 'a frame"

text \<open>
  \<^verbatim>\<open>boost::circular_buffer\<close>: \<^verbatim>\<open>push_back\<close> on a full buffer overwrites the oldest
  element (and does nothing when the capacity is 0).
\<close>

record 'a circular_buffer =
  items :: "'a list"
  cb_capacity :: nat

definition circular_buffer :: "nat \<Rightarrow> 'a circular_buffer" where
  "circular_buffer sz = \<lparr> items = [], cb_capacity = sz \<rparr>"

definition cb_size :: "'a circular_buffer \<Rightarrow> nat" where
  "cb_size b = length (items b)"

definition cb_empty :: "'a circular_buffer \<Rightarrow> bool" where
  "cb_empty b = (items b = [])"

definition cb_full :: "'a circular_buffer \<Rightarrow> bool" where
  "cb_full b = (length (items b) = cb_capacity b)"

definition cb_reserve :: "'a circular_buffer \<Rightarrow> nat" where
  "cb_reserve b = cb_capacity b - length (items b)"

definition cb_push_back :: "'a \<Rightarrow> 'a circular_buffer \<Rightarrow> 'a circular_buffer" where
  "cb_push_back x b =
     (if cb_full b
      then (if cb_capacity b = 0 then b else b\<lparr> items := tl (items b) @ [x] \<rparr>)
      else b\<lparr> items := items b @ [x] \<rparr>)"

text \<open>
  \<^verbatim>\<open>buffered_channel_context\<close> has members of the same names and types, and the ring
  buffer \<^verbatim>\<open>buf\<close>.
\<close>

record 'a buffered_channel_context = "'a unbuffered_channel_context" +
  buf :: "'a circular_buffer"

text \<open>What a call gives back: how it ended, what it assigned to the caller's
  \<^verbatim>\<open>r\<close>, its events in order, and the context after it.\<close>

record ('a, 'c) op_result =
  ctl :: ctl
  received :: "'a option"
  trace :: "event list"
  ctx :: 'c

text \<open>
  A blocking call sets up \<^verbatim>\<open>bool failed = false; scheduler::parkable p;\<close> before it
  queues its callback. A callback called with \<^verbatim>\<open>NULL\<close> sets \<^verbatim>\<open>failed\<close>; the callback
  of a receiver called with a value assigns it to \<^verbatim>\<open>r\<close>; every callback ends with
  \<^verbatim>\<open>p.unpark(lk)\<close>.
\<close>

definition new_frame :: "nat \<Rightarrow> (nat \<Rightarrow> 'a frame) \<Rightarrow> (nat \<Rightarrow> 'a frame)" where
  "new_frame p fr = fr(p := \<lparr> failed = False, unparked = False, r_slot = None \<rparr>)"

definition notify_null :: "nat \<Rightarrow> (nat \<Rightarrow> 'a frame) \<Rightarrow> (nat \<Rightarrow> 'a frame)" where
  "notify_null p fr = fr(p := (fr p)\<lparr> failed := True, unparked := True \<rparr>)"

definition notify_sender :: "nat \<Rightarrow> (nat \<Rightarrow> 'a frame) \<Rightarrow> (nat \<Rightarrow> 'a frame)" where
  "notify_sender p fr = fr(p := (fr p)\<lparr> unparked := True \<rparr>)"

definition notify_receiver :: "nat \<Rightarrow> 'a \<Rightarrow> (nat \<Rightarrow> 'a frame) \<Rightarrow> (nat \<Rightarrow> 'a frame)" where
  "notify_receiver p v fr = fr(p := (fr p)\<lparr> r_slot := Some v, unparked := True \<rparr>)"

text \<open>
  The lambda \<^verbatim>\<open>unpark_queue\<close> of \<^verbatim>\<open>close()\<close>: every callback of the queue is called
  with \<^verbatim>\<open>NULL\<close> and popped; the queue is empty after it.
\<close>

fun unpark_queue :: "nat list \<Rightarrow> (nat \<Rightarrow> 'a frame) \<Rightarrow> (nat \<Rightarrow> 'a frame)" where
  "unpark_queue [] fr = fr"
| "unpark_queue (p # lst) fr = unpark_queue lst (notify_null p fr)"

paragraph \<open>unbuffered_channel_context\<close>

definition unbuffered_construct :: "'a unbuffered_channel_context" where
  "unbuffered_construct = \<lparr> closed_flag = False, parked_send = [], parked_recv = [],
     frames = (\<lambda>p. \<lparr> failed = False, unparked = False, r_slot = None \<rparr>) \<rparr>"

text \<open>\<^verbatim>\<open>close()\<close>, under the lock: the senders are unparked first, then the receivers.\<close>

definition unbuffered_close ::
  "'a unbuffered_channel_context \<Rightarrow> 'a unbuffered_channel_context" where
  "unbuffered_close w =
     w\<lparr> closed_flag := True, parked_send := [], parked_recv := [],
        frames := unpark_queue (parked_recv w)
                    (unpark_queue (map fst (parked_send w)) (frames w)) \<rparr>"

definition unbuffered_closed :: "'a unbuffered_channel_context \<Rightarrow> bool" where
  "unbuffered_closed w = closed_flag w"

text \<open>
  \<^verbatim>\<open>send_(s, block, is_rvalue)\<close>, up to where it returns or parks; \<open>p\<close> is the address
  of the parkable of this call and \<open>v\<close> the value behind \<^verbatim>\<open>s\<close>.
\<close>

definition unbuffered_send' ::
  "nat \<Rightarrow> 'a \<Rightarrow> bool \<Rightarrow> 'a unbuffered_channel_context
     \<Rightarrow> ('a, 'a unbuffered_channel_context) op_result" where
  "unbuffered_send' p v block w =
     (if closed_flag w
      then \<lparr> ctl = Return closed, received = None, trace = [Lock, Unlock], ctx = w \<rparr>
      else case parked_recv w of
        [] \<Rightarrow>
          (if block
           then \<lparr> ctl = Park, received = None, trace = [Lock, Unlock],
                  ctx = w\<lparr> parked_send := parked_send w @ [(p, v)],
                           frames := new_frame p (frames w) \<rparr> \<rparr>
           else \<lparr> ctl = Return failure, received = None, trace = [Lock, Unlock, Yield],
                  ctx = w \<rparr>)
      | q # qs \<Rightarrow>
          \<lparr> ctl = Return success, received = None, trace = [Lock, Unlock, Yield],
            ctx = w\<lparr> parked_recv := qs, frames := notify_receiver q v (frames w) \<rparr> \<rparr>)"

text \<open>The rest of a blocking \<^verbatim>\<open>send_\<close>, from the return of \<^verbatim>\<open>p.park(lk)\<close>.\<close>

definition unbuffered_send_resume ::
  "nat \<Rightarrow> 'a unbuffered_channel_context \<Rightarrow> ('a, 'a unbuffered_channel_context) op_result" where
  "unbuffered_send_resume p w =
     (if failed (frames w p)
      then \<lparr> ctl = Return closed, received = None, trace = [Lock, Unlock], ctx = w \<rparr>
      else \<lparr> ctl = Return success, received = None, trace = [Lock, Unlock, Yield], ctx = w \<rparr>)"

text \<open>\<^verbatim>\<open>recv(r, block)\<close>, up to where it returns or parks.\<close>

definition unbuffered_recv ::
  "nat \<Rightarrow> bool \<Rightarrow> 'a unbuffered_channel_context
     \<Rightarrow> ('a, 'a unbuffered_channel_context) op_result" where
  "unbuffered_recv p block w =
     (if closed_flag w
      then \<lparr> ctl = Return closed, received = None, trace = [Lock, Unlock], ctx = w \<rparr>
      else case parked_send w of
        [] \<Rightarrow>
          (if block
           then \<lparr> ctl = Park, received = None, trace = [Lock, Unlock],
                  ctx = w\<lparr> parked_recv := parked_recv w @ [p],
                           frames := new_frame p (frames w) \<rparr> \<rparr>
           else \<lparr> ctl = Return failure, received = None, trace = [Lock, Unlock, Yield],
                  ctx = w \<rparr>)
      | (q, v) # qs \<Rightarrow>
          \<lparr> ctl = Return success, received = Some v, trace = [Lock, Unlock, Yield],
            ctx = w\<lparr> parked_send := qs, frames := notify_sender q (frames w) \<rparr> \<rparr>)"

text \<open>The rest of a blocking \<^verbatim>\<open>recv\<close>, from the return of \<^verbatim>\<open>p.park(lk)\<close>.\<close>

definition unbuffered_recv_resume ::
  "nat \<Rightarrow> 'a unbuffered_channel_context \<Rightarrow> ('a, 'a unbuffered_channel_context) op_result" where
  "unbuffered_recv_resume p w =
     (if failed (frames w p)
      then \<lparr> ctl = Return closed, received = None, trace = [Lock, Unlock], ctx = w \<rparr>
      else \<lparr> ctl = Return success, received = r_slot (frames w p),
             trace = [Lock, Unlock, Yield], ctx = w \<rparr>)"

text \<open>
  The public operations of \<^verbatim>\<open>unbuffered_channel\<close>: \<^verbatim>\<open>send\<close> and \<^verbatim>\<open>recv\<close> block
  and return \<^verbatim>\<open>result == result::success\<close>, \<^verbatim>\<open>try_send\<close> and \<^verbatim>\<open>try_recv\<close> do not
  block and return the result.
\<close>

definition blocking_return :: "result \<Rightarrow> bool" where
  "blocking_return res = (res = success)"

definition unbuffered_try_send ::
  "nat \<Rightarrow> 'a \<Rightarrow> 'a unbuffered_channel_context \<Rightarrow> ('a, 'a unbuffered_channel_context) op_result" where
  "unbuffered_try_send p v w = unbuffered_send' p v False w"

definition unbuffered_try_recv ::
  "nat \<Rightarrow> 'a unbuffered_channel_context \<Rightarrow> ('a, 'a unbuffered_channel_context) op_result" where
  "unbuffered_try_recv p w = unbuffered_recv p False w"

text \<open>
  The steps by which callers act on one unbuffered channel: a public operation up to its
  return or to where it parks, and the rest of a parked \<^verbatim>\<open>send\<close> or \<^verbatim>\<open>recv\<close>.
\<close>

datatype 'a unbuffered_op =
    U_send nat 'a
  | U_recv nat
  | U_try_send nat 'a
  | U_try_recv nat
  | U_close
  | U_closed
  | U_send_resume nat
  | U_recv_resume nat

fun unbuffered_step ::
  "'a unbuffered_op \<Rightarrow> 'a unbuffered_channel_context \<Rightarrow> 'a unbuffered_channel_context" where
  "unbuffered_step (U_send p v) w = ctx (unbuffered_send' p v True w)"
| "unbuffered_step (U_recv p) w = ctx (unbuffered_recv p True w)"
| "unbuffered_step (U_try_send p v) w = ctx (unbuffered_try_send p v w)"
| "unbuffered_step (U_try_recv p) w = ctx (unbuffered_try_recv p w)"
| "unbuffered_step U_close w = unbuffered_close w"
| "unbuffered_step U_closed w = w"
| "unbuffered_step (U_send_resume p) w = ctx (unbuffered_send_resume p w)"
| "unbuffered_step (U_recv_resume p) w = ctx (unbuffered_recv_resume p w)"

paragraph \<open>buffered_channel_context\<close>

text \<open>\<^verbatim>\<open>buffered_channel::construct(sz)\<close>: \<^verbatim>\<open>if(sz<1){ sz = 1; }\<close>\<close>

definition buffered_construct :: "nat \<Rightarrow> 'a buffered_channel_context" where
  "buffered_construct sz = \<lparr> closed_flag = False, parked_send = [], parked_recv = [],
     frames = (\<lambda>p. \<lparr> failed = False, unparked = False, r_slot = None \<rparr>),
     buf = circular_buffer (if sz < 1 then 1 else sz) \<rparr>"

definition buffered_close ::
  "'a buffered_channel_context \<Rightarrow> 'a buffered_channel_context" where
  "buffered_close w =
     w\<lparr> closed_flag := True, parked_send := [], parked_recv := [],
        frames := unpark_queue (parked_recv w)
                    (unpark_queue (map fst (parked_send w)) (frames w)) \<rparr>"

definition buffered_closed :: "'a buffered_channel_context \<Rightarrow> bool" where
  "buffered_closed w = closed_flag w"

definition buffered_size :: "'a buffered_channel_context \<Rightarrow> nat" where
  "buffered_size w = cb_size (buf w)"

definition buffered_empty :: "'a buffered_channel_context \<Rightarrow> bool" where
  "buffered_empty w = cb_empty (buf w)"

definition buffered_full :: "'a buffered_channel_context \<Rightarrow> bool" where
  "buffered_full w = cb_full (buf w)"

definition buffered_capacity :: "'a buffered_channel_context \<Rightarrow> nat" where
  "buffered_capacity w = cb_capacity (buf w)"

definition buffered_reserve :: "'a buffered_channel_context \<Rightarrow> nat" where
  "buffered_reserve w = cb_reserve (buf w)"

text \<open>
  The end of \<^verbatim>\<open>send_\<close>, which a sender reaches at once or after it was parked and woken
  with a value: on an open channel one parked receiver is woken when there is one and the
  buffer is not empty (its callback takes the front value and pops it); then the lock is
  released, the caller yields and \<^verbatim>\<open>success\<close> is returned.
\<close>

definition buffered_send_end ::
  "'a buffered_channel_context \<Rightarrow> ('a, 'a buffered_channel_context) op_result" where
  "buffered_send_end w =
     \<lparr> ctl = Return success, received = None, trace = [Lock, Unlock, Yield],
       ctx = (if \<not> closed_flag w
              then (case (parked_recv w, items (buf w)) of
                      (q # qs, x # xs) \<Rightarrow>
                        w\<lparr> parked_recv := qs, frames := notify_receiver q x (frames w),
                           buf := (buf w)\<lparr> items := xs \<rparr> \<rparr>
                    | _ \<Rightarrow> w)
              else w) \<rparr>"

definition buffered_send' ::
  "nat \<Rightarrow> 'a \<Rightarrow> bool \<Rightarrow> 'a buffered_channel_context
     \<Rightarrow> ('a, 'a buffered_channel_context) op_result" where
  "buffered_send' p v block w =
     (if closed_flag w
      then \<lparr> ctl = Return closed, received = None, trace = [Lock, Unlock], ctx = w \<rparr>
      else if cb_full (buf w)
      then (if block
            then \<lparr> ctl = Park, received = None, trace = [Lock, Unlock],
                   ctx = w\<lparr> parked_send := parked_send w @ [(p, v)],
                            frames := new_frame p (frames w) \<rparr> \<rparr>
            else \<lparr> ctl = Return failure, received = None, trace = [Lock, Unlock, Yield],
                   ctx = w \<rparr>)
      else buffered_send_end (w\<lparr> buf := cb_push_back v (buf w) \<rparr>))"

definition buffered_send_resume ::
  "nat \<Rightarrow> 'a buffered_channel_context \<Rightarrow> ('a, 'a buffered_channel_context) op_result" where
  "buffered_send_resume p w =
     (if failed (frames w p)
      then \<lparr> ctl = Return closed, received = None, trace = [Lock, Unlock], ctx = w \<rparr>
      else buffered_send_end w)"

text \<open>
  The end of \<^verbatim>\<open>recv\<close>, likewise: on an open channel one parked sender is woken when
  there is one and the buffer is not full (its callback pushes its value).
\<close>

definition buffered_recv_end ::
  "'a option \<Rightarrow> 'a buffered_channel_context \<Rightarrow> ('a, 'a buffered_channel_context) op_result" where
  "buffered_recv_end r w =
     \<lparr> ctl = Return success, received = r, trace = [Lock, Unlock, Yield],
       ctx = (if \<not> closed_flag w
              then (case parked_send w of
                      (q, v) # qs \<Rightarrow>
                        (if \<not> cb_full (buf w)
                         then w\<lparr> parked_send := qs, frames := notify_sender q (frames w),
                                 buf := cb_push_back v (buf w) \<rparr>
                         else w)
                    | [] \<Rightarrow> w)
              else w) \<rparr>"

definition buffered_recv ::
  "nat \<Rightarrow> bool \<Rightarrow> 'a buffered_channel_context
     \<Rightarrow> ('a, 'a buffered_channel_context) op_result" where
  "buffered_recv p block w =
     (if closed_flag w
      then \<lparr> ctl = Return closed, received = None, trace = [Lock, Unlock], ctx = w \<rparr>
      else case items (buf w) of
        [] \<Rightarrow>
          (if block
           then \<lparr> ctl = Park, received = None, trace = [Lock, Unlock],
                  ctx = w\<lparr> parked_recv := parked_recv w @ [p],
                           frames := new_frame p (frames w) \<rparr> \<rparr>
           else \<lparr> ctl = Return failure, received = None, trace = [Lock, Unlock, Yield],
                  ctx = w \<rparr>)
      | x # xs \<Rightarrow> buffered_recv_end (Some x) (w\<lparr> buf := (buf w)\<lparr> items := xs \<rparr> \<rparr>))"

definition buffered_recv_resume ::
  "nat \<Rightarrow> 'a buffered_channel_context \<Rightarrow> ('a, 'a buffered_channel_context) op_result" where
  "buffered_recv_resume p w =
     (if failed (frames w p)
      then \<lparr> ctl = Return closed, received = None, trace = [Lock, Unlock], ctx = w \<rparr>
      else buffered_recv_end (r_slot (frames w p)) w)"

definition buffered_try_send ::
  "nat \<Rightarrow> 'a \<Rightarrow> 'a buffered_channel_context \<Rightarrow> ('a, 'a buffered_channel_context) op_result" where
  "buffered_try_send p v w = buffered_send' p v False w"

definition buffered_try_recv ::
  "nat \<Rightarrow> 'a buffered_channel_context \<Rightarrow> ('a, 'a buffered_channel_context) op_result" where
  "buffered_try_recv p w = buffered_recv p False w"

datatype 'a buffered_op =
    B_send nat 'a
  | B_recv nat
  | B_try_send nat 'a
  | B_try_recv nat
  | B_close
  | B_closed
  | B_size
  | B_empty
  | B_full
  | B_capacity
  | B_reserve
  | B_send_resume nat
  | B_recv_resume nat

fun buffered_step ::
  "'a buffered_op \<Rightarrow> 'a buffered_channel_context \<Rightarrow> 'a buffered_channel_context" where
  "buffered_step (B_send p v) w = ctx (buffered_send' p v True w)"
| "buffered_step (B_recv p) w = ctx (buffered_recv p True w)"
| "buffered_step (B_try_send p v) w = ctx (buffered_try_send p v w)"
| "buffered_step (B_try_recv p) w = ctx (buffered_try_recv p w)"
| "buffered_step B_close w = buffered_close w"
| "buffered_step (B_send_resume p) w = ctx (buffered_send_resume p w)"
| "buffered_step (B_recv_resume p) w = ctx (buffered_recv_resume p w)"
| "buffered_step _ w = w"

paragraph \<open>What the properties of the channels speak of\<close>

text \<open>
  The two parked queues of an unbuffered channel are not both non-empty; a buffered
  channel has a capacity of at least 1 that its buffer does not exceed, no parked sender
  unless the buffer is full and no parked receiver unless it is empty.
\<close>

definition unbuffered_inv :: "'a unbuffered_channel_context \<Rightarrow> bool" where
  "unbuffered_inv w = (\<not> (parked_send w \<noteq> [] \<and> parked_recv w \<noteq> []))"

definition buffered_inv :: "'a buffered_channel_context \<Rightarrow> bool" where
  "buffered_inv w \<longleftrightarrow>
     1 \<le> cb_capacity (buf w) \<and> length (items (buf w)) \<le> cb_capacity (buf w)
     \<and> (\<not> cb_full (buf w) \<longrightarrow> parked_send w = [])
     \<and> (\<not> cb_empty (buf w) \<longrightarrow> parked_recv w = [])"

text \<open>
  The parkable that a blocking call puts on its stack, and the parkables that are in the
  parked queues of a channel.
\<close>

fun unbuffered_call_parkable :: "'a unbuffered_op \<Rightarrow> nat option" where
  "unbuffered_call_parkable (U_send p v) = Some p"
| "unbuffered_call_parkable (U_recv p) = Some p"
| "unbuffered_call_parkable _ = None"

fun buffered_call_parkable :: "'a buffered_op \<Rightarrow> nat option" where
  "buffered_call_parkable (B_send p v) = Some p"
| "buffered_call_parkable (B_recv p) = Some p"
| "buffered_call_parkable _ = None"

definition parked_parkables :: "('a, 'b) unbuffered_channel_context_scheme \<Rightarrow> nat set" where
  "parked_parkables w = fst ` set (parked_send w) \<union> set (parked_recv w)"

subsection \<open>A process to evaluate on\<close>

text \<open>
  A default threadpool of two workers whose schedulers are at the addresses 10 and 11,
  the first with one coroutine in its queue and the second with none; a thread that runs
  no scheduler; and an await pool with its one worker free.
\<close>

definition busy_scheduler :: scheduler where
  "busy_scheduler = scheduler_make\<lparr> state' := running, scheduled' := 1,
     task_queue' := [Yields [] (Completes [])] \<rparr>"

definition idle_scheduler :: scheduler where
  "idle_scheduler = scheduler_make\<lparr> state' := running \<rparr>"

definition two_workers :: process where
  "two_workers = \<lparr> heap = (\<lambda>a. if a = 10 then busy_scheduler else idle_scheduler),
     default_threadpool = \<lparr> workers_schedulers' = [10, 11], current_scheduler_idx_val' = 0 \<rparr> \<rparr>"

definition plain_thread :: thread_locals where
  "plain_thread = \<lparr> tl_this_scheduler = None, tl_this_scheduler_redirect = None,
     tl_this_threadpool = None, tl_is_await = False \<rparr>"

definition await_pool :: await_threadpool where
  "await_pool = \<lparr> min_worker_cnt' = 1, worker_cnt' = 1, workers' = [50] \<rparr>"

section \<open>Properties\<close>

subsection \<open>The packed weight\<close>

lemma half_width_32: "half_width = 32"
  by (simp add: half_width_def size_width_def)

lemma right_mask_mask: "right_mask = mask 32"
  unfolding right_mask_def half_width_32
  by (rule bit_word_eqI) (auto simp add: bit_simps)

lemma left_mask_mask: "left_mask = NOT (mask 32)"
  unfolding left_mask_def half_width_32
  by (simp add: push_bit_minus_one_eq_not_mask)

lemma le_right_mask_iff: "(x::size_t) \<le> right_mask \<longleftrightarrow> x < 2 ^ 32"
proof -
  have "x \<le> mask 32 \<longleftrightarrow> uint x \<le> mask 32"
    by (simp add: word_le_def uint_mask_eq)
  also have "\<dots> \<longleftrightarrow> uint x < 2 ^ 32"
    by (simp add: mask_eq_exp_minus_1) arith
  also have "\<dots> \<longleftrightarrow> x < 2 ^ 32"
    using word_2p_lem [of 32 x] by (simp add: word_size)
  finally show ?thesis by (simp only: right_mask_mask)
qed

lemma right_mask_less: "right_mask < 2 ^ 32"
  using le_right_mask_iff [of right_mask] by simp

lemma low_half_bits: "(s::size_t) < 2 ^ 32 \<Longrightarrow> bit s n \<Longrightarrow> n < 32"
  by (metis bit_take_bit_iff less_mask_eq take_bit_eq_mask)

lemma pack_is_sum:
  assumes "(s::size_t) < 2 ^ 32"
  shows "push_bit 32 e OR s = push_bit 32 e + s"
proof (rule disjunctive_add [symmetric])
  fix n
  show "\<not> bit (push_bit 32 e) n \<or> \<not> bit s n"
  proof (cases "n < 32")
    case True
    then show ?thesis by (simp add: bit_push_bit_iff)
  next
    case False
    with low_half_bits [OF assms, of n] show ?thesis by blast
  qed
qed

lemma unat_pack:
  assumes "e < 2 ^ 32" "s < 2 ^ 32"
  shows "unat (push_bit 32 e OR s :: size_t) = unat e * 2 ^ 32 + unat s"
proof -
  have e: "unat e < 2 ^ 32" and s: "unat s < 2 ^ 32"
    using assms by (simp_all add: word_less_nat_alt)
  have m: "unat (e * 2 ^ 32) = unat e * 2 ^ 32"
    using e by (simp add: unat_mult_lem [THEN iffD1])
  have "unat (e * 2 ^ 32 + s) = unat (e * 2 ^ 32) + unat s"
    using e s m by (simp add: unat_add_lem [THEN iffD1])
  with m have "unat (push_bit 32 e + s) = unat e * 2 ^ 32 + unat s"
    by (simp add: push_bit_eq_mult)
  then show ?thesis by (simp only: pack_is_sum [OF assms(2)])
qed

lemma low_half_of_pack:
  assumes "s < 2 ^ 32"
  shows "(push_bit 32 e OR s) AND mask 32 = (s :: size_t)"
proof (rule bit_word_eqI)
  fix n assume "n < LENGTH(64)"
  show "bit ((push_bit 32 e OR s) AND mask 32) n = bit s n"
    using low_half_bits [OF assms, of n] by (auto simp add: bit_simps)
qed

lemma high_half_of_pack:
  assumes "e < 2 ^ 32" "s < 2 ^ 32"
  shows "drop_bit 32 ((push_bit 32 e OR s) AND NOT (mask 32)) = (e :: size_t)"
proof (rule bit_word_eqI)
  fix n assume "n < LENGTH(64)"
  show "bit (drop_bit 32 ((push_bit 32 e OR s) AND NOT (mask 32))) n = bit e n"
    using low_half_bits [OF assms(2), of "32 + n"] low_half_bits [OF assms(1), of n]
    by (auto simp add: bit_simps)
qed

lemma weight_in_range:
  "e < 2 ^ 32 \<Longrightarrow> s < 2 ^ 32 \<Longrightarrow> weight' (measurement e s) = push_bit 32 e OR s"
  using le_right_mask_iff [of e] le_right_mask_iff [of s]
  by (simp add: measurement_def half_width_32 not_less [symmetric])

lemma lex_nat:
  fixes a b c d :: nat
  assumes "b < k" "d < k"
  shows "a * k + b < c * k + d \<longleftrightarrow> a < c \<or> (a = c \<and> b < d)"
proof (cases a c rule: linorder_cases)
  case less
  then have "Suc a \<le> c" by simp
  then have "Suc a * k \<le> c * k" by (rule mult_le_mono1)
  with assms less show ?thesis by simp
next
  case equal
  then show ?thesis by simp
next
  case greater
  then have "Suc c \<le> a" by simp
  then have "Suc c * k \<le> a * k" by (rule mult_le_mono1)
  with assms greater show ?thesis by simp
qed

lemma measurement_less_lex:
  assumes "e1 < 2 ^ 32" "s1 < 2 ^ 32" "e2 < 2 ^ 32" "s2 < 2 ^ 32"
  shows "measurement_less (measurement e1 s1) (measurement e2 s2)
           \<longleftrightarrow> e1 < e2 \<or> (e1 = e2 \<and> s1 < s2)"
proof -
  have s: "unat s1 < 2 ^ 32" "unat s2 < 2 ^ 32"
    using assms by (simp_all add: word_less_nat_alt)
  have "measurement_less (measurement e1 s1) (measurement e2 s2)
          \<longleftrightarrow> unat e1 * 2 ^ 32 + unat s1 < unat e2 * 2 ^ 32 + unat s2"
    by (simp only: measurement_less_def weight_in_range [OF assms(1,2)]
        weight_in_range [OF assms(3,4)] word_less_nat_alt
        unat_pack [OF assms(1,2)] unat_pack [OF assms(3,4)])
  also have "\<dots> \<longleftrightarrow> unat e1 < unat e2 \<or> (unat e1 = unat e2 \<and> unat s1 < unat s2)"
    by (rule lex_nat) (rule s)+
  finally show ?thesis
    by (simp add: word_less_nat_alt word_unat_eq_iff)
qed

lemma measurement_clamp:
  "measurement e s = measurement (min e right_mask) (min s right_mask)"
  by (auto simp add: measurement_def min_def not_less)

lemma fields_in_range:
  assumes "e < 2 ^ 32" "s < 2 ^ 32"
  shows "enqueued (measurement e s) = e" "scheduled (measurement e s) = s"
  by (simp_all only: enqueued_def scheduled_def weight_in_range [OF assms] half_width_32
      right_mask_mask left_mask_mask low_half_of_pack [OF assms(2)]
      high_half_of_pack [OF assms])

lemma min_right_mask_less: "min x right_mask < 2 ^ 32"
  using right_mask_less le_right_mask_iff [of x] by (simp add: min_def)

lemma enqueued_saturates:
  assumes "2 ^ 32 \<le> e"
  shows "enqueued (measurement e s) = right_mask"
proof -
  have "min e right_mask = right_mask"
    using assms le_right_mask_iff [of e] by (simp add: min_def not_less [symmetric])
  then show ?thesis
    using fields_in_range(1) [OF min_right_mask_less [of e] min_right_mask_less [of s]]
    by (simp add: measurement_clamp [of e s])
qed

lemma scheduled_saturates:
  assumes "2 ^ 32 \<le> s"
  shows "scheduled (measurement e s) = right_mask"
proof -
  have "min s right_mask = right_mask"
    using assms le_right_mask_iff [of s] by (simp add: min_def not_less [symmetric])
  then show ?thesis
    using fields_in_range(2) [OF min_right_mask_less [of e] min_right_mask_less [of s]]
    by (simp add: measurement_clamp [of e s])
qed

lemma right_mask_value: "right_mask = 2 ^ 32 - 1"
  by (simp add: right_mask_mask mask_eq_exp_minus_1)

text \<open>
  C2. For counts below \<open>2 ^ half_width\<close> the comparison of two measurements (the
  comparison of the packed words) is the lexicographic order on (enqueued, scheduled);
  a count at or above \<open>2 ^ half_width\<close> is stored as the half-word maximum
  \<open>2 ^ half_width - 1\<close>; and a measurement built from counts in range gives them back:
  \<open>enqueued\<close> is the first, \<open>scheduled\<close> the second, and \<open>blocked\<close> is the
  \<^verbatim>\<open>size_t\<close> difference \<open>scheduled - enqueued\<close> (the number \<open>s - e\<close> when \<open>e \<le> s\<close>).
\<close>

theorem measurement_packed_order:
  fixes e1 s1 e2 s2 e s :: size_t
  shows "(e1 < 2 ^ half_width \<and> s1 < 2 ^ half_width \<and> e2 < 2 ^ half_width \<and> s2 < 2 ^ half_width
            \<longrightarrow> (measurement_less (measurement e1 s1) (measurement e2 s2)
                   \<longleftrightarrow> e1 < e2 \<or> (e1 = e2 \<and> s1 < s2)))
       \<and> (2 ^ half_width \<le> e \<longrightarrow> enqueued (measurement e s) = 2 ^ half_width - 1)
       \<and> (2 ^ half_width \<le> s \<longrightarrow> scheduled (measurement e s) = 2 ^ half_width - 1)
       \<and> (e < 2 ^ half_width \<and> s < 2 ^ half_width
            \<longrightarrow> enqueued (measurement e s) = e \<and> scheduled (measurement e s) = s
                \<and> blocked (measurement e s) = s - e
                \<and> (e \<le> s \<longrightarrow> unat (blocked (measurement e s)) = unat s - unat e))"
proof -
  have "blocked (measurement e s) = s - e" if "e < 2 ^ 32" "s < 2 ^ 32"
    using that by (simp add: blocked_def fields_in_range)
  moreover have "unat (s - e) = unat s - unat e" if "e \<le> s"
    using that by (simp add: unat_sub)
  ultimately show ?thesis
    unfolding half_width_32
    using measurement_less_lex [of e1 s1 e2 s2] enqueued_saturates [of e s]
      scheduled_saturates [of s e] fields_in_range [of e s]
    by (simp add: right_mask_value)
qed

theorem measurement_packed_order_witness:
  "measurement_less (measurement 1 5) (measurement 2 0)
   \<and> \<not> measurement_less (measurement 2 0) (measurement 1 5)
   \<and> enqueued (measurement (2 ^ 40) 7) = 2 ^ 32 - 1
   \<and> scheduled (measurement 3 (2 ^ 32)) = 2 ^ 32 - 1
   \<and> enqueued (measurement 3 7) = 3 \<and> scheduled (measurement 3 7) = 7
   \<and> blocked (measurement 3 7) = 4 \<and> unat (blocked (measurement 3 7)) = 4"
  using measurement_packed_order [of 1 5 2 0 "2 ^ 40" 7]
    measurement_packed_order [of 2 0 1 5 3 "2 ^ 32"]
    measurement_packed_order [of 0 0 0 0 3 7]
  by (simp add: half_width_32)

subsection \<open>The scheduler's lifecycle\<close>

lemma state_tasks_available_notify [simp]: "state' (tasks_available_notify' s) = state' s"
  by (simp add: tasks_available_notify'_def)

lemma state_resume_notify [simp]: "state' (resume_notify' s) = state' s"
  by (simp add: resume_notify'_def)

lemma state_schedule_coroutine [simp]: "state' (schedule_coroutine' c s) = state' s"
  by (simp add: schedule_coroutine'_def split: option.splits)

lemma state_fold_schedule_coroutine [simp]:
  "state' (fold schedule_coroutine' cs s) = state' s"
  by (induction cs arbitrary: s) simp_all

lemma state_schedule' [simp]: "state' (schedule' as s) = state' s"
  by (induction as s rule: schedule'.induct) simp_all

lemma state_schedule [simp]: "state' (schedule a as s) = state' s"
  by (simp add: schedule_def)

lemma apply_call_running:
  "state' (apply_call c s) = running \<Longrightarrow> state' s = running"
  by (cases "(c, s)" rule: apply_call.cases)
     (auto simp: suspend_impl_def resume_impl_def halt_impl_outside_def Let_def
           split: if_splits caller.splits)

lemma apply_window_running:
  "state' (apply_window w s) = running \<Longrightarrow> state' s = running"
  unfolding apply_window_def
  by (induction w arbitrary: s) (auto dest: apply_call_running)

lemma resume_wait_loop_Done:
  "resume_wait_loop s env = Done (s1, env1) \<Longrightarrow>
     state' s1 \<noteq> suspended \<and> (state' s1 = running \<longrightarrow> state' s = running)"
proof (induction s env rule: resume_wait_loop.induct)
  case (1 s)
  then show ?case by (auto split: if_splits)
next
  case (2 s w env)
  show ?case
  proof (cases "state' s = suspended")
    case True
    with 2 have "state' s1 \<noteq> suspended \<and> (state' s1 = running \<longrightarrow>
        state' (apply_window w (s\<lparr>waiting_for_resume' := True\<rparr>)) = running)"
      by simp
    then show ?thesis using True by (auto dest: apply_window_running)
  next
    case False
    with 2 show ?thesis by auto
  qed
qed


lemma run_loop_Done:
  "run_loop child s env = Done (s1, env1) \<Longrightarrow> \<not> can_continue' s1"
proof (induction child s env rule: run_loop.induct)
  case (1 child s)
  then show ?case by (simp split: if_splits)
next
  case (2 child s w env)
  show ?case
  proof (cases "can_continue' s")
    case False
    with 2(4) show ?thesis by simp
  next
    case cc: True
    show ?thesis
    proof (cases "task_queue' s")
      case Nil
      with cc 2(4) have "run_loop child (tasks_available_wait' child s w) env = Done (s1, env1)"
        by simp
      with 2(1) [OF _ Nil] cc show ?thesis by simp
    next
      case (Cons cur_co q)
      show ?thesis
      proof (cases "execute_co s cur_co w")
        case (Inr s2)
        show ?thesis
        proof (cases child)
          case True
          with cc Cons Inr 2(4) obtain w1 e1 where e: "env = w1 # e1"
            by (cases env) simp_all
          with cc Cons Inr True 2(4)
          have "run_loop child (apply_window w1 s2) e1 = Done (s1, env1)"
            by simp
          with 2(2) [OF _ Cons Inr True e] cc show ?thesis by simp
        next
          case False
          with cc Cons Inr 2(4) have "run_loop child s2 env = Done (s1, env1)" by simp
          with 2(3) [OF _ Cons Inr False] cc show ?thesis by simp
        qed
      next
        case (Inl e)
        with cc Cons 2(4) show ?thesis by simp
      qed
    qed
  qed
qed

lemma not_can_continue: "\<not> can_continue' s \<longleftrightarrow> state' s = suspended \<or> state' s = halted"
  by (cases "state' s") (simp_all add: can_continue'_def)

lemma run_exit_state: "state' (snd (run_exit s)) = state' s"
  by (simp add: run_exit_def reset_flags'_def clear_task_queue'_def)

lemma run_exit_value: "fst (run_exit s) \<longleftrightarrow> state' s = suspended"
  by (simp add: run_exit_def)

lemma run_Done_cases:
  assumes "run child s env = Done (b, s1, env1)"
  obtains s0 env0 s2 where "resume_wait_loop s env = Done (s0, env0)"
    and "(if state' s0 = ready then run_loop child (s0\<lparr> state' := running \<rparr>) env0
         else Done (s0, env0)) = Done (s2, env1)"
    and "b = fst (run_exit s2)" and "s1 = snd (run_exit s2)"
proof (cases "resume_wait_loop s env")
  case (Done p)
  obtain s0 env0 where p: "p = (s0, env0)" by (cases p)
  show ?thesis
  proof (cases "if state' s0 = ready then run_loop child (s0\<lparr> state' := running \<rparr>) env0
         else Done (s0, env0)")
    case d: (Done q)
    obtain s2 env2 where q: "q = (s2, env2)" by (cases q)
    from assms Done p d q have "b = fst (run_exit s2)" "s1 = snd (run_exit s2)" "env2 = env1"
      by (simp_all add: run_def)
    with that Done p d q show ?thesis by simp
  next
    case Rethrown
    with assms Done p show ?thesis by (simp add: run_def)
  next
    case Unfinished
    with assms Done p show ?thesis by (simp add: run_def)
  qed
next
  case Rethrown
  with assms show ?thesis by (simp add: run_def)
next
  case Unfinished
  with assms show ?thesis by (simp add: run_def)
qed

lemma run_running:
  "state' s = running \<Longrightarrow> run child s env = Done (False, snd (run_exit s), env)"
  by (cases env) (simp_all add: run_def run_exit_def)

lemma run_halted:
  "state' s = halted \<Longrightarrow> run child s env = Done (False, snd (run_exit s), env)"
  by (cases env) (simp_all add: run_def run_exit_def)

lemma run_exit_halted_upd:
  "state' s = running \<Longrightarrow>
     snd (run_exit (s\<lparr> state' := halted \<rparr>)) = (snd (run_exit s))\<lparr> state' := halted \<rparr>"
  by (simp add: run_exit_def clear_task_queue'_def)

lemma apply_call_sets_state:
  "(state' (apply_call (who, c) s) = suspended \<and> state' s \<noteq> suspended \<longrightarrow> c = Call_suspend)
   \<and> (state' (apply_call (who, c) s) = halted \<and> state' s \<noteq> halted \<longrightarrow> c = Call_halt)"
  by (cases c)
     (auto simp: suspend_impl_def resume_impl_def halt_impl_outside_def Let_def
        split: if_splits caller.splits)

lemma co_calls_suspended:
  "state' (fst (co_calls cs s)) = suspended \<Longrightarrow> state' s \<noteq> suspended \<Longrightarrow> Call_suspend \<in> set cs"
proof (induction cs s rule: co_calls.induct)
  case (3 cs s)
  then show ?case by (cases "state' s = suspended") (auto simp: resume_impl_def)
next
  case (4 cs s)
  then show ?case by (simp add: halt_impl_within_def)
qed simp_all

lemma co_calls_halted:
  "state' (fst (co_calls cs s)) = halted \<Longrightarrow> state' s \<noteq> halted \<Longrightarrow> Call_halt \<in> set cs"
proof (induction cs s rule: co_calls.induct)
  case (2 cs s)
  then show ?case by (cases "state' s = halted") (auto simp: suspend_impl_def)
next
  case (3 cs s)
  then show ?case by (cases "state' s = suspended") (auto simp: resume_impl_def)
qed simp_all

lemma task_queue_tasks_available_notify [simp]:
  "task_queue' (tasks_available_notify' s) = task_queue' s"
  by (simp add: tasks_available_notify'_def)

lemma task_queue_resume_notify [simp]: "task_queue' (resume_notify' s) = task_queue' s"
  by (simp add: resume_notify'_def)

lemma task_queue_schedule_coroutine:
  "\<exists>ys. task_queue' (schedule_coroutine' c s) = task_queue' s @ ys"
  by (simp add: schedule_coroutine'_def split: option.splits)

lemma task_queue_fold_schedule_coroutine:
  "\<exists>ys. task_queue' (fold schedule_coroutine' cs s) = task_queue' s @ ys"
proof (induction cs arbitrary: s)
  case Nil
  then show ?case by simp
next
  case (Cons c cs)
  from task_queue_schedule_coroutine [of c s] Cons [of "schedule_coroutine' c s"]
  show ?case by auto
qed

lemma task_queue_schedule': "\<exists>ys. task_queue' (schedule' as s) = task_queue' s @ ys"
proof (induction as s rule: schedule'.induct)
  case (1 s)
  then show ?case by simp
next
  case (2 c as s)
  with task_queue_schedule_coroutine [of c s] show ?case by auto
next
  case (3 cs as s)
  with task_queue_fold_schedule_coroutine [of cs s] show ?case by auto
next
  case (4 co as s)
  with task_queue_schedule_coroutine [of "Some co" s] show ?case by simp
qed

lemma task_queue_schedule: "\<exists>ys. task_queue' (schedule a as s) = task_queue' s @ ys"
  using task_queue_schedule' [of "a # as" s] by (simp add: schedule_def)

lemma task_queue_apply_call: "\<exists>ys. task_queue' (apply_call c s) = task_queue' s @ ys"
proof (cases "(c, s)" rule: apply_call.cases)
  case (4 who a as s')
  with task_queue_schedule [of a as s] show ?thesis by simp
qed (auto simp: suspend_impl_def resume_impl_def halt_impl_outside_def Let_def
        split: caller.splits)

lemma task_queue_apply_window: "\<exists>ys. task_queue' (apply_window w s) = task_queue' s @ ys"
  unfolding apply_window_def
proof (induction w arbitrary: s)
  case Nil
  then show ?case by simp
next
  case (Cons c w)
  from task_queue_apply_call [of c s] Cons [of "apply_call c s"] show ?case by auto
qed

lemma task_queue_co_calls: "\<exists>ys. task_queue' (fst (co_calls cs s)) = task_queue' s @ ys"
proof (induction cs s rule: co_calls.induct)
  case (2 cs s)
  then show ?case by (auto simp: suspend_impl_def)
next
  case (3 cs s)
  then show ?case by (auto simp: resume_impl_def)
next
  case (4 cs s)
  then show ?case by (simp add: halt_impl_within_def)
next
  case (5 a as cs s)
  with task_queue_schedule [of a as s] show ?case by auto
qed simp

lemma task_queue_coroutine_run:
  "\<exists>ys. task_queue' (snd (snd (coroutine_run co s))) = task_queue' s @ ys"
proof -
  have *: "\<exists>ys. task_queue' s1 = task_queue' s @ ys" if "co_calls cs s = (s1, r)" for cs s1 r
    using task_queue_co_calls [of cs s] that by simp
  show ?thesis
    by (cases co) (auto split: prod.splits option.splits dest: *)
qed

text \<open>
  When \<^verbatim>\<open>execute_co\<close> pops the front of the queue, the front is the coroutine that ran.
\<close>

lemma execute_co_front:
  assumes "task_queue' s = cur_co # q" "coroutine_run cur_co s = (Slice_returned, co, s1)"
  shows "\<exists>ys. task_queue' (apply_window w s1) = cur_co # q @ ys"
proof -
  from task_queue_coroutine_run [of cur_co s] assms obtain ys where
    "task_queue' s1 = cur_co # q @ ys" by auto
  with task_queue_apply_window [of w s1] show ?thesis by auto
qed

lemma run_result:
  "(run child s env = Done (b, s1, env1) \<longrightarrow>
      (b \<longleftrightarrow> state' s1 = suspended) \<and> (\<not> b \<longrightarrow> state' s1 = halted \<or> state' s = running))
   \<and> (state' s = running \<longrightarrow>
        run child s env = Done (False, snd (run_exit s), env)
        \<and> run child (s\<lparr> state' := halted \<rparr>) env
            = Done (False, (snd (run_exit s))\<lparr> state' := halted \<rparr>, env))"
proof (intro conjI impI)
  assume r: "run child s env = Done (b, s1, env1)"
  from r obtain s0 env0 s2 where w: "resume_wait_loop s env = Done (s0, env0)"
    and l: "(if state' s0 = ready then run_loop child (s0\<lparr> state' := running \<rparr>) env0
         else Done (s0, env0)) = Done (s2, env1)"
    and b: "b = fst (run_exit s2)" and s1: "s1 = snd (run_exit s2)"
    by (rule run_Done_cases)
  from resume_wait_loop_Done [OF w]
  have s0: "state' s0 \<noteq> suspended" "state' s0 = running \<Longrightarrow> state' s = running"
    by simp_all
  show "b \<longleftrightarrow> state' s1 = suspended"
    by (simp add: b s1 run_exit_state run_exit_value)
  assume "\<not> b"
  then have ns: "state' s2 \<noteq> suspended" by (simp add: b run_exit_value)
  show "state' s1 = halted \<or> state' s = running"
  proof (cases "state' s0 = ready")
    case True
    with l have "run_loop child (s0\<lparr> state' := running \<rparr>) env0 = Done (s2, env1)" by simp
    then have "\<not> can_continue' s2" by (rule run_loop_Done)
    with ns show ?thesis by (simp add: not_can_continue s1 run_exit_state)
  next
    case False
    with l have "s2 = s0" by simp
    with False s0 show ?thesis
      by (cases "state' s0") (simp_all add: s1 run_exit_state)
  qed
next
  assume "state' s = running"
  then show "run child s env = Done (False, snd (run_exit s), env)"
    by (rule run_running)
next
  assume r: "state' s = running"
  show "run child (s\<lparr> state' := halted \<rparr>) env
            = Done (False, (snd (run_exit s))\<lparr> state' := halted \<rparr>, env)"
    using run_halted [of "s\<lparr> state' := halted \<rparr>" child env] run_exit_halted_upd [OF r]
    by simp
qed

lemma queue_has_notify [simp]:
  "queue_has t (tasks_available_notify' s) = queue_has t s"
  "queue_has t (resume_notify' s) = queue_has t s"
  "queue_has t (update_running_state' s) = queue_has t s"
  by (simp_all add: queue_has_def tasks_available_notify'_def resume_notify'_def
      update_running_state'_def)

lemma queue_has_schedule_coroutine:
  "queue_has t (schedule_coroutine' c s)
     \<longleftrightarrow> queue_has t s \<or> (case c of None \<Rightarrow> False | Some co \<Rightarrow> co_has t co)"
  by (auto simp: queue_has_def schedule_coroutine'_def split: option.splits)

lemma queue_has_fold_schedule_coroutine:
  "queue_has t (fold schedule_coroutine' cs s)
     \<longleftrightarrow> queue_has t s \<or> (\<exists>c \<in> set cs. case c of None \<Rightarrow> False | Some co \<Rightarrow> co_has t co)"
  by (induction cs arbitrary: s) (auto simp: queue_has_schedule_coroutine)

lemma queue_has_schedule':
  "queue_has t (schedule' as s) \<Longrightarrow> queue_has t s \<or> (\<exists>a \<in> set as. arg_has t a)"
proof (induction as s rule: schedule'.induct)
  case (1 s)
  then show ?case by simp
next
  case (2 c as s)
  then show ?case by (auto simp: queue_has_schedule_coroutine)
next
  case (3 cs as s)
  then show ?case by (auto simp: queue_has_fold_schedule_coroutine)
next
  case (4 co as s)
  then show ?case by (auto simp: queue_has_schedule_coroutine)
qed

lemma queue_has_schedule:
  "queue_has t (schedule a as s) \<Longrightarrow> queue_has t s \<or> call_has t (Call_schedule a as)"
  using queue_has_schedule' [of t "a # as" s]
  by (auto simp: schedule_def split: if_splits)

lemma queue_has_state_upd [simp]:
  "queue_has t (s\<lparr> state' := x \<rparr>) = queue_has t s"
  "queue_has t (s\<lparr> waiting_for_tasks' := y \<rparr>) = queue_has t s"
  "queue_has t (s\<lparr> waiting_for_resume' := y \<rparr>) = queue_has t s"
  "queue_has t (s\<lparr> tasks_available_park' := y \<rparr>) = queue_has t s"
  "queue_has t (s\<lparr> park_continuation' := y \<rparr>) = queue_has t s"
  "queue_has t (s\<lparr> halt_complete_waiters' := z \<rparr>) = queue_has t s"
  by (simp_all add: queue_has_def)

lemma apply_call_free:
  assumes "enters t st" "\<not> call_has t (snd x)"
  shows "(queue_has t (apply_call x s) \<longrightarrow> queue_has t s)
       \<and> (state' (apply_call x s) = st \<longrightarrow> state' s = st)"
proof -
  obtain who c where x: "x = (who, c)" by (cases x)
  show ?thesis
  proof (cases c)
    case Call_suspend
    with assms x show ?thesis
      by (auto simp: enters_def suspend_impl_def)
  next
    case Call_resume
    with assms x show ?thesis
      by (auto simp: enters_def resume_impl_def)
  next
    case Call_halt
    with assms x show ?thesis
      by (auto simp: enters_def halt_impl_outside_def Let_def split: caller.splits)
  next
    case (Call_schedule a as)
    with assms x queue_has_schedule [of t a as s] show ?thesis
      by auto
  qed
qed

lemma apply_window_free:
  assumes "enters t st"
  shows "\<not> window_has t w \<Longrightarrow>
       (queue_has t (apply_window w s) \<longrightarrow> queue_has t s)
       \<and> (state' (apply_window w s) = st \<longrightarrow> state' s = st)"
  unfolding apply_window_def
proof (induction w arbitrary: s)
  case Nil
  then show ?case by simp
next
  case (Cons x w)
  from Cons.prems have x: "\<not> call_has t (snd x)" and w: "\<not> window_has t w"
    by (simp_all add: window_has_def)
  from apply_call_free [OF assms x, of s] Cons.IH [OF w, of "apply_call x s"]
  show ?case by simp
qed

lemma co_calls_free:
  assumes "enters t st"
  shows "\<forall>c \<in> set cs. \<not> call_has t c \<Longrightarrow>
       (queue_has t (fst (co_calls cs s)) \<longrightarrow> queue_has t s)
       \<and> (state' (fst (co_calls cs s)) = st \<longrightarrow> state' s = st)
       \<and> (\<forall>rest. snd (co_calls cs s) = Some rest \<longrightarrow> (\<forall>c \<in> set rest. \<not> call_has t c))"
proof (induction cs s rule: co_calls.induct)
  case (1 s)
  then show ?case by simp
next
  case (2 cs s)
  with assms show ?case by (auto simp: enters_def suspend_impl_def)
next
  case (3 cs s)
  with assms show ?case by (auto simp: enters_def resume_impl_def)
next
  case (4 cs s)
  with assms show ?case by (auto simp: enters_def halt_impl_within_def)
next
  case (5 a as cs s)
  from 5 have "(queue_has t (fst (co_calls cs (schedule a as s))) \<longrightarrow> queue_has t (schedule a as s))
       \<and> (state' (fst (co_calls cs (schedule a as s))) = st \<longrightarrow> state' (schedule a as s) = st)
       \<and> (\<forall>rest. snd (co_calls cs (schedule a as s)) = Some rest \<longrightarrow> (\<forall>c \<in> set rest. \<not> call_has t c))"
    by simp
  moreover from 5(2) have "\<not> call_has t (Call_schedule a as)" by simp
  ultimately show ?case using queue_has_schedule [of t a as s] by auto
qed

lemma coroutine_run_free:
  assumes "enters t st" "\<not> co_has t co" "coroutine_run co s = (e, co1, s1)"
  shows "\<not> co_has t co1 \<and> (queue_has t s1 \<longrightarrow> queue_has t s) \<and> (state' s1 = st \<longrightarrow> state' s = st)"
proof -
  have *: "(queue_has t s2 \<longrightarrow> queue_has t s) \<and> (state' s2 = st \<longrightarrow> state' s = st)
       \<and> (\<forall>rest. r = Some rest \<longrightarrow> (\<forall>c \<in> set rest. \<not> call_has t c))"
    if "\<forall>c \<in> set cs. \<not> call_has t c" "co_calls cs s = (s2, r)" for cs s2 r
    using co_calls_free [OF assms(1) that(1), of s] that(2) by simp
  show ?thesis
  proof (cases co)
    case Finished
    with assms show ?thesis by auto
  next
    case (Completes cs)
    obtain s2 r where c: "co_calls cs s = (s2, r)" by (cases "co_calls cs s")
    from Completes assms(2) have "\<forall>c \<in> set cs. \<not> call_has t c" by simp
    from * [OF this c] Completes assms(3) c show ?thesis
      by (cases r) auto
  next
    case (Throws cs)
    obtain s2 r where c: "co_calls cs s = (s2, r)" by (cases "co_calls cs s")
    from Throws assms(2) have "\<forall>c \<in> set cs. \<not> call_has t c" by simp
    from * [OF this c] Throws assms(3) c show ?thesis
      by (cases r) auto
  next
    case (Yields cs k)
    obtain s2 r where c: "co_calls cs s = (s2, r)" by (cases "co_calls cs s")
    from Yields assms(2) have "\<forall>c \<in> set cs. \<not> call_has t c" and k: "\<not> co_has t k" by simp_all
    from * [OF this(1) c] k Yields assms(3) c show ?thesis
      by (cases r) auto
  next
    case (Parks cs k)
    obtain s2 r where c: "co_calls cs s = (s2, r)" by (cases "co_calls cs s")
    from Parks assms(2) have "\<forall>c \<in> set cs. \<not> call_has t c" and k: "\<not> co_has t k" by simp_all
    from * [OF this(1) c] k Parks assms(3) c show ?thesis
      by (cases r) auto
  qed
qed

lemma queue_has_pop:
  "queue_has t (s\<lparr> task_queue' := tl (task_queue' s) \<rparr>) \<Longrightarrow> queue_has t s"
  by (cases "task_queue' s") (auto simp: queue_has_def)

lemma execute_co_free:
  assumes "enters t st" "\<not> co_has t cur_co" "\<not> window_has t w" "execute_co s cur_co w = Inr s1"
  shows "(queue_has t s1 \<longrightarrow> queue_has t s) \<and> (state' s1 = st \<longrightarrow> state' s = st)"
proof -
  obtain e co s2 where r: "coroutine_run cur_co s = (e, co, s2)"
    by (cases "coroutine_run cur_co s")
  from coroutine_run_free [OF assms(1,2) r]
  have co: "\<not> co_has t co" and q2: "queue_has t s2 \<longrightarrow> queue_has t s"
    and st2: "state' s2 = st \<longrightarrow> state' s = st" by simp_all
  define s3 where "s3 = apply_window w s2"
  from apply_window_free [OF assms(1,3), of s2]
  have q3: "queue_has t s3 \<longrightarrow> queue_has t s2" and st3: "state' s3 = st \<longrightarrow> state' s2 = st"
    by (simp_all add: s3_def)
  have sub: "set (tl (task_queue' s3)) \<subseteq> set (task_queue' s3)"
    by (cases "task_queue' s3") auto
  from assms(4) r have e: "e = Slice_returned"
    by (cases e) (simp_all add: execute_co_def)
  from assms(4) r e have "s1 = s3\<lparr> park_continuation' := False, task_queue' := tl (task_queue' s3) \<rparr>
      \<or> s1 = s3\<lparr> task_queue' := tl (task_queue' s3), scheduled' := scheduled' s3 - 1 \<rparr>
      \<or> s1 = s3\<lparr> task_queue' := tl (task_queue' s3) @ [co] \<rparr>"
    by (auto simp: execute_co_def Let_def s3_def split: if_splits)
  then have "(queue_has t s1 \<longrightarrow> queue_has t s3) \<and> state' s1 = state' s3"
    using co sub by (fastforce simp: queue_has_def)
  with q2 q3 st2 st3 show ?thesis by auto
qed

lemma tasks_available_wait_free:
  assumes "enters t st" "\<not> window_has t w"
  shows "(queue_has t (tasks_available_wait' child s w) \<longrightarrow> queue_has t s)
       \<and> (state' (tasks_available_wait' child s w) = st \<longrightarrow> state' s = st)"
proof -
  define s0 where "s0 = (if child then s\<lparr> waiting_for_tasks' := True, tasks_available_park' := True \<rparr>
           else s\<lparr> waiting_for_tasks' := True \<rparr>)"
  have 0: "queue_has t s0 = queue_has t s" "state' s0 = state' s" by (simp_all add: s0_def)
  from apply_window_free [OF assms, of s0] 0
  have 1: "queue_has t (apply_window w s0) \<longrightarrow> queue_has t s"
    "state' (apply_window w s0) = st \<longrightarrow> state' s = st" by simp_all
  have 2: "state' (update_running_state' x) = st \<longrightarrow> state' x = st" for x
    using assms(1) by (auto simp: update_running_state'_def enters_def)
  from 1 2 [of "apply_window w s0"] show ?thesis
    by (auto simp: tasks_available_wait'_def s0_def)
qed

lemma run_loop_free:
  assumes t: "enters t st"
  shows "run_loop child s env = Done (s1, env1) \<Longrightarrow>
     \<exists>pre. env = pre @ env1
       \<and> ((\<forall>w \<in> set pre. \<not> window_has t w) \<and> \<not> queue_has t s \<and> state' s \<noteq> st
            \<longrightarrow> state' s1 \<noteq> st)"
proof (induction child s env rule: run_loop.induct)
  case (1 child s)
  then show ?case by (simp split: if_splits)
next
  case (2 child s w env)
  show ?case
  proof (cases "can_continue' s")
    case False
    with 2(4) have "s1 = s" "env1 = w # env" by simp_all
    then show ?thesis by simp
  next
    case cc: True
    show ?thesis
    proof (cases "task_queue' s")
      case Nil
      with cc 2(4) have "run_loop child (tasks_available_wait' child s w) env = Done (s1, env1)"
        by simp
      from 2(1) [OF _ Nil this] cc obtain pre where pre: "env = pre @ env1"
        "(\<forall>w \<in> set pre. \<not> window_has t w) \<and> \<not> queue_has t (tasks_available_wait' child s w)
           \<and> state' (tasks_available_wait' child s w) \<noteq> st \<longrightarrow> state' s1 \<noteq> st"
        by auto
      have "state' s1 \<noteq> st"
        if "\<forall>x \<in> set (w # pre). \<not> window_has t x" "\<not> queue_has t s" "state' s \<noteq> st"
        using tasks_available_wait_free [OF t, of w child s] that pre(2) by auto
      with pre(1) show ?thesis by (intro exI [of _ "w # pre"]) auto
    next
      case (Cons cur_co q)
      show ?thesis
      proof (cases "execute_co s cur_co w")
        case (Inl e)
        with cc Cons 2(4) show ?thesis by simp
      next
        case (Inr s2)
        have step: "\<not> queue_has t s2 \<and> state' s2 \<noteq> st"
          if "\<not> window_has t w" "\<not> queue_has t s" "state' s \<noteq> st"
        proof -
          from that(2) Cons have "\<not> co_has t cur_co" by (simp add: queue_has_def)
          from execute_co_free [OF t this that(1) Inr] that(2,3) show ?thesis by auto
        qed
        show ?thesis
        proof (cases child)
          case True
          with cc Cons Inr 2(4) obtain w1 e1 where e: "env = w1 # e1"
            by (cases env) simp_all
          with cc Cons Inr True 2(4)
          have "run_loop child (apply_window w1 s2) e1 = Done (s1, env1)"
            by simp
          from 2(2) [OF _ Cons Inr True e this] cc obtain pre where pre: "e1 = pre @ env1"
            "(\<forall>w \<in> set pre. \<not> window_has t w) \<and> \<not> queue_has t (apply_window w1 s2)
               \<and> state' (apply_window w1 s2) \<noteq> st \<longrightarrow> state' s1 \<noteq> st"
            by auto
          have "state' s1 \<noteq> st"
            if "\<forall>x \<in> set (w # w1 # pre). \<not> window_has t x" "\<not> queue_has t s" "state' s \<noteq> st"
          proof -
            from that have "\<not> queue_has t s2 \<and> state' s2 \<noteq> st" by (intro step) simp_all
            moreover from that have "\<not> window_has t w1" by simp
            ultimately have "\<not> queue_has t (apply_window w1 s2) \<and> state' (apply_window w1 s2) \<noteq> st"
              using apply_window_free [OF t, of w1 s2] by auto
            with that pre(2) show ?thesis by simp
          qed
          with pre(1) e show ?thesis by (intro exI [of _ "w # w1 # pre"]) auto
        next
          case False
          with cc Cons Inr 2(4) have "run_loop child s2 env = Done (s1, env1)" by simp
          from 2(3) [OF _ Cons Inr False this] cc obtain pre where pre: "env = pre @ env1"
            "(\<forall>w \<in> set pre. \<not> window_has t w) \<and> \<not> queue_has t s2 \<and> state' s2 \<noteq> st
               \<longrightarrow> state' s1 \<noteq> st"
            by auto
          have "state' s1 \<noteq> st"
            if "\<forall>x \<in> set (w # pre). \<not> window_has t x" "\<not> queue_has t s" "state' s \<noteq> st"
            using step that pre(2) by simp
          with pre(1) show ?thesis by (intro exI [of _ "w # pre"]) auto
        qed
      qed
    qed
  qed
qed

lemma resume_wait_loop_free:
  assumes t: "enters t st"
  shows "resume_wait_loop s env = Done (s0, env0) \<Longrightarrow>
     \<exists>pre. env = pre @ env0
       \<and> ((\<forall>w \<in> set pre. \<not> window_has t w)
            \<longrightarrow> (queue_has t s0 \<longrightarrow> queue_has t s) \<and> (state' s0 = st \<longrightarrow> state' s = st))"
proof (induction s env rule: resume_wait_loop.induct)
  case (1 s)
  then show ?case by (simp split: if_splits)
next
  case (2 s w env)
  show ?case
  proof (cases "state' s = suspended")
    case False
    with 2(2) have "s0 = s" "env0 = w # env" by simp_all
    then show ?thesis by simp
  next
    case True
    define s2 where "s2 = apply_window w (s\<lparr> waiting_for_resume' := True \<rparr>)"
    from True 2(2) have "resume_wait_loop s2 env = Done (s0, env0)" by (simp add: s2_def)
    from 2(1) [OF True this [unfolded s2_def]] obtain pre where pre: "env = pre @ env0"
      "(\<forall>w \<in> set pre. \<not> window_has t w)
         \<longrightarrow> (queue_has t s0 \<longrightarrow> queue_has t s2) \<and> (state' s0 = st \<longrightarrow> state' s2 = st)"
      by (auto simp: s2_def)
    have "(queue_has t s0 \<longrightarrow> queue_has t s) \<and> (state' s0 = st \<longrightarrow> state' s = st)"
      if "\<forall>x \<in> set (w # pre). \<not> window_has t x"
      using apply_window_free [OF t, of w "s\<lparr> waiting_for_resume' := True \<rparr>"] that pre(2)
      by (auto simp: s2_def)
    with pre(1) show ?thesis by (intro exI [of _ "w # pre"]) auto
  qed
qed

lemma enters_suspend: "enters Call_suspend suspended"
  and enters_halt: "enters Call_halt halted"
  by (simp_all add: enters_def)

lemma run_called:
  assumes r: "run child s env = Done (b, s1, env1)"
  shows "\<exists>pre. env = pre @ env1
     \<and> (b \<longrightarrow> (\<exists>w \<in> set pre. window_has Call_suspend w) \<or> queue_has Call_suspend s)
     \<and> (\<not> b \<and> state' s \<noteq> running \<and> state' s \<noteq> halted
          \<longrightarrow> (\<exists>w \<in> set pre. window_has Call_halt w) \<or> queue_has Call_halt s)"
proof -
  from r obtain s0 env0 s2 where w: "resume_wait_loop s env = Done (s0, env0)"
    and l: "(if state' s0 = ready then run_loop child (s0\<lparr> state' := running \<rparr>) env0
         else Done (s0, env0)) = Done (s2, env1)"
    and b: "b = fst (run_exit s2)" and s1: "s1 = snd (run_exit s2)"
    by (rule run_Done_cases)
  from resume_wait_loop_Done [OF w]
  have s0: "state' s0 \<noteq> suspended" "state' s0 = running \<Longrightarrow> state' s = running"
    by simp_all
  from resume_wait_loop_free [OF enters_suspend w] obtain pre0 where
    e0: "env = pre0 @ env0"
    and q0s: "(\<forall>w \<in> set pre0. \<not> window_has Call_suspend w)
         \<Longrightarrow> queue_has Call_suspend s0 \<Longrightarrow> queue_has Call_suspend s"
    by auto
  from resume_wait_loop_free [OF enters_halt w] obtain pre0' where
    e0': "env = pre0' @ env0"
    and h0': "(\<forall>w \<in> set pre0'. \<not> window_has Call_halt w)
         \<longrightarrow> (queue_has Call_halt s0 \<longrightarrow> queue_has Call_halt s)
           \<and> (state' s0 = halted \<longrightarrow> state' s = halted)"
    by auto
  from e0 e0' have "pre0' = pre0" by simp
  with h0' have q0h: "(\<forall>w \<in> set pre0. \<not> window_has Call_halt w)
         \<Longrightarrow> queue_has Call_halt s0 \<Longrightarrow> queue_has Call_halt s"
    and st0h: "(\<forall>w \<in> set pre0. \<not> window_has Call_halt w)
         \<Longrightarrow> state' s0 = halted \<Longrightarrow> state' s = halted"
    by simp_all
  have bs: "b \<longleftrightarrow> state' s2 = suspended" by (simp add: b run_exit_value)
  show ?thesis
  proof (cases "state' s0 = ready")
    case True
    with l have rl: "run_loop child (s0\<lparr> state' := running \<rparr>) env0 = Done (s2, env1)" by simp
    then have nc: "\<not> can_continue' s2" by (rule run_loop_Done)
    from run_loop_free [OF enters_suspend rl] obtain pre1 where
      e1: "env0 = pre1 @ env1"
      and ls: "(\<forall>w \<in> set pre1. \<not> window_has Call_suspend w) \<Longrightarrow> \<not> queue_has Call_suspend s0
           \<Longrightarrow> state' s2 \<noteq> suspended"
      by auto
    from run_loop_free [OF enters_halt rl] obtain pre1' where
      e1': "env0 = pre1' @ env1"
      and lh': "(\<forall>w \<in> set pre1'. \<not> window_has Call_halt w) \<and> \<not> queue_has Call_halt s0
           \<longrightarrow> state' s2 \<noteq> halted"
      by auto
    from e1 e1' have "pre1' = pre1" by simp
    with lh' have lh: "(\<forall>w \<in> set pre1. \<not> window_has Call_halt w) \<Longrightarrow> \<not> queue_has Call_halt s0
           \<Longrightarrow> state' s2 \<noteq> halted"
      by simp
    have 1: "(\<exists>w \<in> set (pre0 @ pre1). window_has Call_suspend w) \<or> queue_has Call_suspend s" if b
    proof (rule ccontr)
      assume "\<not> ?thesis"
      then have n: "\<forall>w \<in> set pre0. \<not> window_has Call_suspend w"
        "\<forall>w \<in> set pre1. \<not> window_has Call_suspend w" "\<not> queue_has Call_suspend s"
        by auto
      from q0s [OF n(1)] n(3) have "\<not> queue_has Call_suspend s0" by blast
      from ls [OF n(2) this] that bs show False by simp
    qed
    have 2: "(\<exists>w \<in> set (pre0 @ pre1). window_has Call_halt w) \<or> queue_has Call_halt s" if "\<not> b"
    proof (rule ccontr)
      assume "\<not> ?thesis"
      then have n: "\<forall>w \<in> set pre0. \<not> window_has Call_halt w"
        "\<forall>w \<in> set pre1. \<not> window_has Call_halt w" "\<not> queue_has Call_halt s"
        by auto
      from q0h [OF n(1)] n(3) have "\<not> queue_has Call_halt s0" by blast
      from lh [OF n(2) this] have "state' s2 \<noteq> halted" .
      with nc that bs show False by (simp add: not_can_continue)
    qed
    from e0 e1 1 2 show ?thesis by (intro exI [of _ "pre0 @ pre1"]) auto
  next
    case False
    with l have eq: "s2 = s0" "env1 = env0" by simp_all
    from eq s0(1) bs have nb: "\<not> b" by simp
    have 2: "(\<exists>w \<in> set pre0. window_has Call_halt w) \<or> queue_has Call_halt s"
      if "state' s \<noteq> running" "state' s \<noteq> halted"
    proof (rule ccontr)
      assume "\<not> ?thesis"
      then have n: "\<forall>w \<in> set pre0. \<not> window_has Call_halt w" by auto
      from False s0 that(1) have "state' s0 = halted" by (cases "state' s0") auto
      from st0h [OF n this] that(2) show False by simp
    qed
    from e0 eq nb 2 show ?thesis by (intro exI [of _ pre0]) auto
  qed
qed

text \<open>
  C5. \<^verbatim>\<open>run()\<close> returns true exactly when it leaves the scheduler in the suspended
  state, and then \<^verbatim>\<open>suspend()\<close> was called: by another thread in one of the windows
  that \<^verbatim>\<open>run()\<close> went through (\<open>pre\<close>), or it is a call of a coroutine that was in the
  queue or was scheduled in these windows. When it returns false the scheduler is in the
  halted state and \<^verbatim>\<open>halt()\<close> was called in the same sense, unless \<^verbatim>\<open>run()\<close> was
  called on a scheduler that was halted before or that another caller is driving. Such a
  call, in the running state, returns false at once, without taking any coroutine or
  window, and with the same value and the same clean-up as a call on the halted
  scheduler. A single call enters the suspended state only if it is \<^verbatim>\<open>suspend()\<close> and
  the halted state only if it is \<^verbatim>\<open>halt()\<close>, be it made by another thread or by a
  coroutine of the scheduler.
\<close>

theorem run_return_value:
  "(run child s env = Done (b, s1, env1) \<longrightarrow>
      (b \<longleftrightarrow> state' s1 = suspended) \<and> (\<not> b \<longrightarrow> state' s1 = halted \<or> state' s = running)
      \<and> (\<exists>pre. env = pre @ env1
           \<and> (b \<longrightarrow> (\<exists>w \<in> set pre. window_has Call_suspend w) \<or> queue_has Call_suspend s)
           \<and> (\<not> b \<and> state' s \<noteq> running \<and> state' s \<noteq> halted
                \<longrightarrow> (\<exists>w \<in> set pre. window_has Call_halt w) \<or> queue_has Call_halt s)))
   \<and> (state' s = running \<longrightarrow>
        run child s env = Done (False, snd (run_exit s), env)
        \<and> run child (s\<lparr> state' := halted \<rparr>) env
            = Done (False, (snd (run_exit s))\<lparr> state' := halted \<rparr>, env))
   \<and> (state' (apply_call (who, c) s) = suspended \<and> state' s \<noteq> suspended \<longrightarrow> c = Call_suspend)
   \<and> (state' (apply_call (who, c) s) = halted \<and> state' s \<noteq> halted \<longrightarrow> c = Call_halt)
   \<and> (state' (fst (co_calls cs s)) = suspended \<and> state' s \<noteq> suspended
        \<longrightarrow> Call_suspend \<in> set cs)
   \<and> (state' (fst (co_calls cs s)) = halted \<and> state' s \<noteq> halted \<longrightarrow> Call_halt \<in> set cs)"
  using run_result [of child s env b s1 env1] run_called [of child s env b s1 env1]
    apply_call_sets_state [of who c s] co_calls_suspended [of cs s] co_calls_halted [of cs s]
  by blast

theorem run_return_value_witness:
  "run False (scheduler_make\<lparr> task_queue' := [Yields [] (Completes [])], scheduled' := 1 \<rparr>)
      [[], [(From_thread, Call_suspend)], []]
     = Done (True, scheduler_make\<lparr> state' := suspended \<rparr>, [[]])
   \<and> state' (scheduler_make\<lparr> state' := suspended \<rparr>) = suspended
   \<and> window_has Call_suspend [(From_thread, Call_suspend)]
   \<and> \<not> queue_has Call_suspend
         (scheduler_make\<lparr> task_queue' := [Yields [] (Completes [])], scheduled' := 1 \<rparr>)
   \<and> run False scheduler_make
        [[(From_thread, Call_schedule (Arg_callable (Yields [Call_suspend] (Completes []))) [])],
         [], []]
     = Done (True, scheduler_make\<lparr> state' := suspended, scheduled' := 1,
          task_queue' := [Completes []] \<rparr>, [[]])
   \<and> run False (scheduler_make\<lparr> task_queue' := [Yields [] (Completes [])], scheduled' := 1 \<rparr>)
      [[], [(From_thread, Call_halt)], []]
     = Done (False, scheduler_make\<lparr> state' := halted, halt_complete' := True \<rparr>, [[]])
   \<and> state' (scheduler_make\<lparr> state' := halted, halt_complete' := True \<rparr>) = halted
   \<and> window_has Call_halt [(From_thread, Call_halt)]
   \<and> state' (scheduler_make\<lparr> state' := running, task_queue' := [Completes []] \<rparr>) = running
   \<and> run False (scheduler_make\<lparr> state' := running, task_queue' := [Completes []] \<rparr>)
        [[(From_thread, Call_suspend)]]
     = Done (False, scheduler_make\<lparr> state' := running, halt_complete' := True \<rparr>,
         [[(From_thread, Call_suspend)]])
   \<and> state' (apply_call (From_thread, Call_suspend) scheduler_make) = suspended
   \<and> state' (fst (co_calls [Call_halt] scheduler_make)) = halted"
  (is ?w)
proof -
  have e: ?w by code_simp
  from run_return_value [of False
      "scheduler_make\<lparr> task_queue' := [Yields [] (Completes [])], scheduled' := 1 \<rparr>"
      "[[], [(From_thread, Call_suspend)], []]" True
      "scheduler_make\<lparr> state' := suspended \<rparr>" "[[]]" From_thread Call_suspend "[Call_halt]"]
    run_return_value [of False
      "scheduler_make\<lparr> task_queue' := [Yields [] (Completes [])], scheduled' := 1 \<rparr>"
      "[[], [(From_thread, Call_halt)], []]" False
      "scheduler_make\<lparr> state' := halted, halt_complete' := True \<rparr>" "[[]]"]
    run_return_value [of False "scheduler_make\<lparr> state' := running, task_queue' := [Completes []] \<rparr>"
      "[[(From_thread, Call_suspend)]]"]
    e
  show ?thesis by blast
qed

text \<open>
  C10. On a halted scheduler \<^verbatim>\<open>schedule\<close> returns with the scheduler as it was: nothing
  is enqueued, the run queue and the scheduled count are unchanged, whatever coroutines,
  containers or Callable were passed.
\<close>

theorem schedule_halted_unchanged:
  "state' s = halted \<Longrightarrow> schedule a as s = s"
  by (simp add: schedule_def)

theorem schedule_halted_unchanged_witness:
  "state' (scheduler_make\<lparr> state' := halted \<rparr>) = halted
   \<and> schedule (Arg_coroutine (Some (Completes []))) [Arg_callable (Yields [] (Completes []))]
        (scheduler_make\<lparr> state' := halted \<rparr>) = scheduler_make\<lparr> state' := halted \<rparr>
   \<and> task_queue' (schedule (Arg_coroutine (Some (Completes []))) [Arg_callable (Yields [] (Completes []))]
        (scheduler_make\<lparr> state' := halted \<rparr>)) = []
   \<and> task_queue' (schedule (Arg_coroutine (Some (Completes []))) [Arg_callable (Yields [] (Completes []))]
        scheduler_make) = [Completes [], Yields [] (Completes [])]"
  using schedule_halted_unchanged [of "scheduler_make\<lparr> state' := halted \<rparr>"
      "Arg_coroutine (Some (Completes []))" "[Arg_callable (Yields [] (Completes []))]"]
  by code_simp

subsection \<open>Channels\<close>

lemmas channel_defs =
  unbuffered_construct_def unbuffered_close_def unbuffered_closed_def unbuffered_send'_def
  unbuffered_send_resume_def unbuffered_recv_def unbuffered_recv_resume_def
  unbuffered_try_send_def unbuffered_try_recv_def
  buffered_construct_def buffered_close_def buffered_closed_def buffered_send'_def
  buffered_send_resume_def buffered_recv_def buffered_recv_resume_def
  buffered_try_send_def buffered_try_recv_def buffered_send_end_def buffered_recv_end_def
  buffered_full_def buffered_empty_def
  circular_buffer_def cb_full_def cb_empty_def cb_push_back_def
  new_frame_def notify_null_def notify_sender_def notify_receiver_def blocking_return_def

lemma unbuffered_step_inv:
  "unbuffered_inv w \<Longrightarrow> unbuffered_inv (unbuffered_step op w)"
  by (cases op)
     (auto simp: unbuffered_inv_def unbuffered_send'_def unbuffered_recv_def
        unbuffered_try_send_def unbuffered_try_recv_def unbuffered_close_def
        unbuffered_send_resume_def unbuffered_recv_resume_def
        split: list.splits if_splits)

lemma unbuffered_fold_inv:
  "unbuffered_inv w \<Longrightarrow> unbuffered_inv (fold unbuffered_step ops w)"
  by (induction ops arbitrary: w) (simp_all add: unbuffered_step_inv)

text \<open>
  C6. After any sequence of operations on an unbuffered channel since its construction
  (\<^verbatim>\<open>send\<close>, \<^verbatim>\<open>recv\<close>, \<^verbatim>\<open>try_send\<close>, \<^verbatim>\<open>try_recv\<close>, \<^verbatim>\<open>close\<close>, \<^verbatim>\<open>closed\<close>, each
  taken up to its return or to where it parks, and the returns of parked calls), the
  parked-sender queue and the parked-receiver queue are not both non-empty.
\<close>

theorem unbuffered_queues_exclusive:
  "\<not> (parked_send (fold unbuffered_step ops unbuffered_construct) \<noteq> []
      \<and> parked_recv (fold unbuffered_step ops unbuffered_construct) \<noteq> [])"
  using unbuffered_fold_inv [of unbuffered_construct ops]
  by (simp add: unbuffered_inv_def unbuffered_construct_def)

theorem unbuffered_queues_exclusive_witness:
  "parked_send (fold unbuffered_step [U_send 1 (5::nat), U_send 2 6, U_recv 3] unbuffered_construct)
     = [(2, 6)]
   \<and> parked_recv (fold unbuffered_step [U_send 1 (5::nat), U_send 2 6, U_recv 3] unbuffered_construct)
     = []
   \<and> parked_send (fold unbuffered_step [U_recv 3, U_try_send 1 (5::nat), U_recv 4] unbuffered_construct)
     = []
   \<and> parked_recv (fold unbuffered_step [U_recv 3, U_try_send 1 (5::nat), U_recv 4] unbuffered_construct)
     = [4]"
  using unbuffered_queues_exclusive [of "[U_send 1 (5::nat), U_send 2 6, U_recv 3]"]
    unbuffered_queues_exclusive [of "[U_recv 3, U_try_send 1 (5::nat), U_recv 4]"]
  by code_simp

lemma buffered_construct_inv: "buffered_inv (buffered_construct sz)"
  by (simp add: buffered_inv_def buffered_construct_def circular_buffer_def cb_full_def
      cb_empty_def)

lemma buffered_send_end_inv_noop:
  "buffered_inv w \<Longrightarrow> ctx (buffered_send_end w) = w"
  by (auto simp: buffered_send_end_def buffered_inv_def cb_empty_def split: list.splits)

lemma buffered_recv_end_inv_noop:
  "buffered_inv w \<Longrightarrow> ctx (buffered_recv_end r w) = w"
  by (auto simp: buffered_recv_end_def buffered_inv_def split: list.splits)

lemma buffered_send_inv:
  assumes "buffered_inv w"
  shows "buffered_inv (ctx (buffered_send' p v block w))"
proof (cases "closed_flag w \<or> cb_full (buf w)")
  case True
  with assms show ?thesis
    by (auto simp: buffered_send'_def buffered_inv_def cb_full_def cb_empty_def)
next
  case False
  with assms have ps: "parked_send w = []" and nf: "length (items (buf w)) < cb_capacity (buf w)"
    by (auto simp: buffered_inv_def cb_full_def)
  show ?thesis
  proof (cases "parked_recv w")
    case Nil
    with assms False ps nf show ?thesis
      by (auto simp: buffered_send'_def buffered_send_end_def buffered_inv_def cb_full_def
          cb_empty_def cb_push_back_def split: list.splits)
  next
    case (Cons q qs)
    with assms have "items (buf w) = []" by (auto simp: buffered_inv_def cb_empty_def)
    with assms False ps nf Cons show ?thesis
      by (auto simp: buffered_send'_def buffered_send_end_def buffered_inv_def cb_full_def
          cb_empty_def cb_push_back_def split: list.splits)
  qed
qed

lemma buffered_recv_inv:
  assumes "buffered_inv w"
  shows "buffered_inv (ctx (buffered_recv p block w))"
proof (cases "closed_flag w")
  case True
  with assms show ?thesis by (simp add: buffered_recv_def)
next
  case opn: False
  show ?thesis
  proof (cases "items (buf w)")
    case Nil
    with assms opn show ?thesis
      by (auto simp: buffered_recv_def buffered_inv_def cb_full_def cb_empty_def)
  next
    case (Cons x xs)
    with assms have pr: "parked_recv w = []" by (auto simp: buffered_inv_def cb_empty_def)
    show ?thesis
    proof (cases "parked_send w")
      case Nil
      with assms opn Cons pr show ?thesis
        by (auto simp: buffered_recv_def buffered_recv_end_def buffered_inv_def cb_full_def
            cb_empty_def)
    next
      case c: (Cons qv qs)
      obtain q v where qv: "qv = (q, v)" by (cases qv)
      from assms c have "length (items (buf w)) = cb_capacity (buf w)"
        by (auto simp: buffered_inv_def cb_full_def)
      with assms opn Cons pr c qv show ?thesis
        by (auto simp: buffered_recv_def buffered_recv_end_def buffered_inv_def cb_full_def
            cb_empty_def cb_push_back_def)
    qed
  qed
qed

lemma buffered_close_inv: "buffered_inv w \<Longrightarrow> buffered_inv (buffered_close w)"
  by (simp add: buffered_inv_def buffered_close_def)

lemma buffered_step_inv:
  assumes "buffered_inv w"
  shows "buffered_inv (buffered_step op w)"
proof (cases op)
  case (B_send p v)
  with assms show ?thesis by (simp add: buffered_send_inv)
next
  case (B_recv p)
  with assms show ?thesis by (simp add: buffered_recv_inv)
next
  case (B_try_send p v)
  with assms show ?thesis by (simp add: buffered_try_send_def buffered_send_inv)
next
  case (B_try_recv p)
  with assms show ?thesis by (simp add: buffered_try_recv_def buffered_recv_inv)
next
  case B_close
  with assms show ?thesis by (simp add: buffered_close_inv)
next
  case (B_send_resume p)
  with assms show ?thesis by (simp add: buffered_send_resume_def buffered_send_end_inv_noop)
next
  case (B_recv_resume p)
  with assms show ?thesis by (simp add: buffered_recv_resume_def buffered_recv_end_inv_noop)
qed (use assms in simp_all)

lemma buffered_fold_inv:
  "buffered_inv w \<Longrightarrow> buffered_inv (fold buffered_step ops w)"
  by (induction ops arbitrary: w) (simp_all add: buffered_step_inv)

text \<open>
  C3. After any sequence of operations on a buffered channel since its construction with
  any requested size (\<^verbatim>\<open>send\<close>, \<^verbatim>\<open>recv\<close>, \<^verbatim>\<open>try_send\<close>, \<^verbatim>\<open>try_recv\<close>, \<^verbatim>\<open>close\<close>,
  \<^verbatim>\<open>closed\<close>, \<^verbatim>\<open>size\<close>, \<^verbatim>\<open>empty\<close>, \<^verbatim>\<open>full\<close>, \<^verbatim>\<open>capacity\<close>, \<^verbatim>\<open>reserve\<close>, and the
  returns of parked calls): if the ring buffer is not full the parked-sender queue is
  empty, and if the ring buffer is not empty the parked-receiver queue is empty.
\<close>

theorem buffered_parked_queues:
  "(\<not> buffered_full (fold buffered_step ops (buffered_construct sz))
      \<longrightarrow> parked_send (fold buffered_step ops (buffered_construct sz)) = [])
   \<and> (\<not> buffered_empty (fold buffered_step ops (buffered_construct sz))
      \<longrightarrow> parked_recv (fold buffered_step ops (buffered_construct sz)) = [])"
  using buffered_fold_inv [OF buffered_construct_inv, of ops sz]
  by (simp add: buffered_inv_def buffered_full_def buffered_empty_def)

theorem buffered_parked_queues_witness:
  "\<not> buffered_full (fold buffered_step [B_recv 1, B_recv 2, B_send 3 (7::nat)] (buffered_construct 2))
   \<and> parked_send (fold buffered_step [B_recv 1, B_recv 2, B_send 3 (7::nat)] (buffered_construct 2)) = []
   \<and> parked_recv (fold buffered_step [B_recv 1, B_recv 2, B_send 3 (7::nat)] (buffered_construct 2)) = [2]
   \<and> \<not> buffered_empty (fold buffered_step [B_send 1 (7::nat), B_send 2 8, B_recv 3] (buffered_construct 0))
   \<and> parked_recv (fold buffered_step [B_send 1 (7::nat), B_send 2 8, B_recv 3] (buffered_construct 0)) = []
   \<and> items (buf (fold buffered_step [B_send 1 (7::nat), B_send 2 8, B_recv 3] (buffered_construct 0))) = [8]"
  using buffered_parked_queues [of "[B_recv 1, B_recv 2, B_send 3 (7::nat)]" 2]
    buffered_parked_queues [of "[B_send 1 (7::nat), B_send 2 8, B_recv 3]" 0]
  by code_simp

lemma unpark_queue_other: "p \<notin> set lst \<Longrightarrow> unpark_queue lst fr p = fr p"
  by (induction lst arbitrary: fr) (simp_all add: notify_null_def)

lemma unpark_queue_failed_mono: "failed (fr p) \<Longrightarrow> failed (unpark_queue lst fr p)"
  by (induction lst arbitrary: fr) (simp_all add: notify_null_def)

lemma unpark_queue_failed: "p \<in> set lst \<Longrightarrow> failed (unpark_queue lst fr p)"
  by (induction lst arbitrary: fr) (auto simp: notify_null_def unpark_queue_failed_mono)

lemma unpark_queue_unparked_mono: "unparked (fr p) \<Longrightarrow> unparked (unpark_queue lst fr p)"
  by (induction lst arbitrary: fr) (simp_all add: notify_null_def)

lemma unpark_queue_unparked: "p \<in> set lst \<Longrightarrow> unparked (unpark_queue lst fr p)"
  by (induction lst arbitrary: fr) (auto simp: notify_null_def unpark_queue_unparked_mono)

lemma unpark_queue_r_slot: "r_slot (unpark_queue lst fr p) = r_slot (fr p)"
  by (induction lst arbitrary: fr) (simp_all add: notify_null_def)

lemma close_frames_failed:
  assumes "p \<in> fst ` set ps \<union> set rs"
  shows "failed (unpark_queue rs (unpark_queue (map fst ps) fr) p)"
proof (cases "p \<in> set rs")
  case True
  then show ?thesis by (rule unpark_queue_failed)
next
  case False
  with assms have "p \<in> set (map fst ps)" by simp
  then have "failed (unpark_queue (map fst ps) fr p)" by (rule unpark_queue_failed)
  then show ?thesis by (rule unpark_queue_failed_mono)
qed

lemma unbuffered_close_failed:
  "p \<in> parked_parkables w \<Longrightarrow> failed (frames (unbuffered_close w) p)"
  by (simp add: parked_parkables_def unbuffered_close_def close_frames_failed)

lemma buffered_close_failed:
  "p \<in> parked_parkables w \<Longrightarrow> failed (frames (buffered_close w) p)"
  by (simp add: parked_parkables_def buffered_close_def close_frames_failed)

lemma close_frames_unparked:
  assumes "p \<in> fst ` set ps \<union> set rs"
  shows "unparked (unpark_queue rs (unpark_queue (map fst ps) fr) p)"
proof (cases "p \<in> set rs")
  case True
  then show ?thesis by (rule unpark_queue_unparked)
next
  case False
  with assms have "p \<in> set (map fst ps)" by simp
  then have "unparked (unpark_queue (map fst ps) fr p)" by (rule unpark_queue_unparked)
  then show ?thesis by (rule unpark_queue_unparked_mono)
qed

lemma unbuffered_close_unparked:
  "p \<in> parked_parkables w \<Longrightarrow> unparked (frames (unbuffered_close w) p)"
  by (simp add: parked_parkables_def unbuffered_close_def close_frames_unparked)

lemma buffered_close_unparked:
  "p \<in> parked_parkables w \<Longrightarrow> unparked (frames (buffered_close w) p)"
  by (simp add: parked_parkables_def buffered_close_def close_frames_unparked)

lemma unbuffered_step_frame:
  assumes "p \<notin> parked_parkables w" "unbuffered_call_parkable op \<noteq> Some p"
  shows "frames (unbuffered_step op w) p = frames w p \<and> p \<notin> parked_parkables (unbuffered_step op w)"
  using assms
  by (cases op)
     (auto simp: parked_parkables_def unbuffered_send'_def unbuffered_recv_def
        unbuffered_try_send_def unbuffered_try_recv_def unbuffered_close_def
        unbuffered_send_resume_def unbuffered_recv_resume_def new_frame_def
        notify_receiver_def notify_sender_def unpark_queue_other
        split: list.splits if_splits)

lemma unbuffered_fold_frame:
  assumes "p \<notin> parked_parkables w" "Some p \<notin> unbuffered_call_parkable ` set ops"
  shows "frames (fold unbuffered_step ops w) p = frames w p"
  using assms
proof (induction ops arbitrary: w)
  case Nil
  then show ?case by simp
next
  case (Cons op ops)
  from Cons.prems have "unbuffered_call_parkable op \<noteq> Some p" by auto
  from unbuffered_step_frame [OF Cons.prems(1) this] Cons.prems(2) Cons.IH [of "unbuffered_step op w"]
  show ?case by simp
qed

lemma buffered_step_frame:
  assumes "p \<notin> parked_parkables w" "buffered_call_parkable op \<noteq> Some p"
  shows "frames (buffered_step op w) p = frames w p \<and> p \<notin> parked_parkables (buffered_step op w)"
  using assms
  by (cases op)
     (auto simp: parked_parkables_def buffered_send'_def buffered_recv_def
        buffered_try_send_def buffered_try_recv_def buffered_close_def
        buffered_send_resume_def buffered_recv_resume_def new_frame_def
        buffered_send_end_def buffered_recv_end_def
        notify_receiver_def notify_sender_def unpark_queue_other
        split: list.splits if_splits)

lemma buffered_fold_frame:
  assumes "p \<notin> parked_parkables w" "Some p \<notin> buffered_call_parkable ` set ops"
  shows "frames (fold buffered_step ops w) p = frames w p"
  using assms
proof (induction ops arbitrary: w)
  case Nil
  then show ?case by simp
next
  case (Cons op ops)
  from Cons.prems have "buffered_call_parkable op \<noteq> Some p" by auto
  from buffered_step_frame [OF Cons.prems(1) this] Cons.prems(2) Cons.IH [of "buffered_step op w"]
  show ?case by simp
qed

lemma parked_parkables_unbuffered_close [simp]: "parked_parkables (unbuffered_close w) = {}"
  by (simp add: parked_parkables_def unbuffered_close_def)

lemma parked_parkables_buffered_close [simp]: "parked_parkables (buffered_close w) = {}"
  by (simp add: parked_parkables_def buffered_close_def)

lemma unbuffered_failed_after_close:
  assumes "p \<in> parked_parkables u" "Some p \<notin> unbuffered_call_parkable ` set ops"
  shows "failed (frames (fold unbuffered_step ops (unbuffered_close u)) p)"
    and "unparked (frames (fold unbuffered_step ops (unbuffered_close u)) p)"
proof -
  have "frames (fold unbuffered_step ops (unbuffered_close u)) p = frames (unbuffered_close u) p"
    by (rule unbuffered_fold_frame) (simp_all add: assms(2))
  with unbuffered_close_failed [OF assms(1)] unbuffered_close_unparked [OF assms(1)]
  show "failed (frames (fold unbuffered_step ops (unbuffered_close u)) p)"
    and "unparked (frames (fold unbuffered_step ops (unbuffered_close u)) p)"
    by simp_all
qed

lemma buffered_failed_after_close:
  assumes "p \<in> parked_parkables b" "Some p \<notin> buffered_call_parkable ` set ops"
  shows "failed (frames (fold buffered_step ops (buffered_close b)) p)"
    and "unparked (frames (fold buffered_step ops (buffered_close b)) p)"
proof -
  have "frames (fold buffered_step ops (buffered_close b)) p = frames (buffered_close b) p"
    by (rule buffered_fold_frame) (simp_all add: assms(2))
  with buffered_close_failed [OF assms(1)] buffered_close_unparked [OF assms(1)]
  show "failed (frames (fold buffered_step ops (buffered_close b)) p)"
    and "unparked (frames (fold buffered_step ops (buffered_close b)) p)"
    by simp_all
qed

text \<open>
  C4. \<^verbatim>\<open>close()\<close> on a channel of either kind leaves both parked queues empty and
  transfers no value (no receiver's \<^verbatim>\<open>r\<close> is assigned, the ring buffer is as before).
  Every sender and every receiver \<open>p\<close> that was parked when \<^verbatim>\<open>close()\<close> was called has
  been woken by it (\<^verbatim>\<open>p.unpark\<close> was called on its parkable) with \<^verbatim>\<open>failed\<close> set,
  and it returns \<^verbatim>\<open>closed\<close> when it goes on, whatever other calls are made on the channel
  in between (none of them can be a new blocking call with the parkable of \<open>p\<close>, whose
  frame is still live); \<^verbatim>\<open>send\<close> and \<^verbatim>\<open>recv\<close> turn that result into false.
\<close>

theorem close_fails_parked_calls:
  fixes u :: "'a unbuffered_channel_context" and b :: "'a buffered_channel_context"
  shows
  "parked_send (unbuffered_close u) = [] \<and> parked_recv (unbuffered_close u) = []
   \<and> (\<forall>q. r_slot (frames (unbuffered_close u) q) = r_slot (frames u q))
   \<and> (p \<in> fst ` set (parked_send u) \<and> Some p \<notin> unbuffered_call_parkable ` set ops \<longrightarrow>
        unparked (frames (unbuffered_close u) p)
        \<and> unparked (frames (fold unbuffered_step ops (unbuffered_close u)) p)
        \<and> failed (frames (fold unbuffered_step ops (unbuffered_close u)) p)
        \<and> ctl (unbuffered_send_resume p (fold unbuffered_step ops (unbuffered_close u)))
          = Return closed)
   \<and> (p \<in> set (parked_recv u) \<and> Some p \<notin> unbuffered_call_parkable ` set ops \<longrightarrow>
        unparked (frames (unbuffered_close u) p)
        \<and> unparked (frames (fold unbuffered_step ops (unbuffered_close u)) p)
        \<and> failed (frames (fold unbuffered_step ops (unbuffered_close u)) p)
        \<and> ctl (unbuffered_recv_resume p (fold unbuffered_step ops (unbuffered_close u)))
          = Return closed
        \<and> received (unbuffered_recv_resume p (fold unbuffered_step ops (unbuffered_close u)))
          = None)
   \<and> parked_send (buffered_close b) = [] \<and> parked_recv (buffered_close b) = []
   \<and> buf (buffered_close b) = buf b
   \<and> (\<forall>q. r_slot (frames (buffered_close b) q) = r_slot (frames b q))
   \<and> (p \<in> fst ` set (parked_send b) \<and> Some p \<notin> buffered_call_parkable ` set bops \<longrightarrow>
        unparked (frames (buffered_close b) p)
        \<and> unparked (frames (fold buffered_step bops (buffered_close b)) p)
        \<and> failed (frames (fold buffered_step bops (buffered_close b)) p)
        \<and> ctl (buffered_send_resume p (fold buffered_step bops (buffered_close b)))
          = Return closed)
   \<and> (p \<in> set (parked_recv b) \<and> Some p \<notin> buffered_call_parkable ` set bops \<longrightarrow>
        unparked (frames (buffered_close b) p)
        \<and> unparked (frames (fold buffered_step bops (buffered_close b)) p)
        \<and> failed (frames (fold buffered_step bops (buffered_close b)) p)
        \<and> ctl (buffered_recv_resume p (fold buffered_step bops (buffered_close b)))
          = Return closed
        \<and> received (buffered_recv_resume p (fold buffered_step bops (buffered_close b)))
          = None)
   \<and> \<not> blocking_return closed"
proof -
  have 1: "parked_send (unbuffered_close u) = [] \<and> parked_recv (unbuffered_close u) = []
     \<and> (\<forall>q. r_slot (frames (unbuffered_close u) q) = r_slot (frames u q))"
    by (simp add: unbuffered_close_def unpark_queue_r_slot)
  have 2: "parked_send (buffered_close b) = [] \<and> parked_recv (buffered_close b) = []
     \<and> buf (buffered_close b) = buf b
     \<and> (\<forall>q. r_slot (frames (buffered_close b) q) = r_slot (frames b q))"
    by (simp add: buffered_close_def unpark_queue_r_slot)
  have 3: "\<not> blocking_return closed" by (simp add: blocking_return_def)
  have us: "unparked (frames (unbuffered_close u) p)
        \<and> unparked (frames (fold unbuffered_step ops (unbuffered_close u)) p)
        \<and> failed (frames (fold unbuffered_step ops (unbuffered_close u)) p)
        \<and> ctl (unbuffered_send_resume p (fold unbuffered_step ops (unbuffered_close u)))
          = Return closed"
    if "p \<in> fst ` set (parked_send u)" "Some p \<notin> unbuffered_call_parkable ` set ops"
  proof -
    from that(1) have p: "p \<in> parked_parkables u" by (simp add: parked_parkables_def)
    from unbuffered_failed_after_close [OF p that(2)] unbuffered_close_unparked [OF p]
    show ?thesis by (simp add: unbuffered_send_resume_def)
  qed
  have ur: "unparked (frames (unbuffered_close u) p)
        \<and> unparked (frames (fold unbuffered_step ops (unbuffered_close u)) p)
        \<and> failed (frames (fold unbuffered_step ops (unbuffered_close u)) p)
        \<and> ctl (unbuffered_recv_resume p (fold unbuffered_step ops (unbuffered_close u)))
          = Return closed
        \<and> received (unbuffered_recv_resume p (fold unbuffered_step ops (unbuffered_close u)))
          = None"
    if "p \<in> set (parked_recv u)" "Some p \<notin> unbuffered_call_parkable ` set ops"
  proof -
    from that(1) have p: "p \<in> parked_parkables u" by (simp add: parked_parkables_def)
    from unbuffered_failed_after_close [OF p that(2)] unbuffered_close_unparked [OF p]
    show ?thesis by (simp add: unbuffered_recv_resume_def)
  qed
  have bs: "unparked (frames (buffered_close b) p)
        \<and> unparked (frames (fold buffered_step bops (buffered_close b)) p)
        \<and> failed (frames (fold buffered_step bops (buffered_close b)) p)
        \<and> ctl (buffered_send_resume p (fold buffered_step bops (buffered_close b)))
          = Return closed"
    if "p \<in> fst ` set (parked_send b)" "Some p \<notin> buffered_call_parkable ` set bops"
  proof -
    from that(1) have p: "p \<in> parked_parkables b" by (simp add: parked_parkables_def)
    from buffered_failed_after_close [OF p that(2)] buffered_close_unparked [OF p]
    show ?thesis by (simp add: buffered_send_resume_def)
  qed
  have br: "unparked (frames (buffered_close b) p)
        \<and> unparked (frames (fold buffered_step bops (buffered_close b)) p)
        \<and> failed (frames (fold buffered_step bops (buffered_close b)) p)
        \<and> ctl (buffered_recv_resume p (fold buffered_step bops (buffered_close b)))
          = Return closed
        \<and> received (buffered_recv_resume p (fold buffered_step bops (buffered_close b)))
          = None"
    if "p \<in> set (parked_recv b)" "Some p \<notin> buffered_call_parkable ` set bops"
  proof -
    from that(1) have p: "p \<in> parked_parkables b" by (simp add: parked_parkables_def)
    from buffered_failed_after_close [OF p that(2)] buffered_close_unparked [OF p]
    show ?thesis by (simp add: buffered_recv_resume_def)
  qed
  from 1 2 3 us ur bs br show ?thesis by blast
qed

theorem close_fails_parked_calls_witness:
  "1 \<in> fst ` set (parked_send (fold unbuffered_step [U_send 1 (5::nat), U_send 2 6] unbuffered_construct))
   \<and> Some 1 \<notin> unbuffered_call_parkable ` set [U_try_recv 9 :: nat unbuffered_op]
   \<and> ctl (unbuffered_send_resume 1 (fold unbuffered_step [U_try_recv 9]
        (unbuffered_close (fold unbuffered_step [U_send 1 (5::nat), U_send 2 6] unbuffered_construct))))
       = Return closed
   \<and> \<not> unparked (frames (fold unbuffered_step [U_send 1 (5::nat), U_send 2 6] unbuffered_construct) 1)
   \<and> unparked (frames
        (unbuffered_close (fold unbuffered_step [U_send 1 (5::nat), U_send 2 6] unbuffered_construct)) 1)
   \<and> unparked (frames
        (unbuffered_close (fold unbuffered_step [U_send 1 (5::nat), U_send 2 6] unbuffered_construct)) 2)
   \<and> 3 \<in> set (parked_recv (fold unbuffered_step [U_recv 3, U_recv 4 :: nat unbuffered_op] unbuffered_construct))
   \<and> ctl (unbuffered_recv_resume 3 (fold unbuffered_step []
        (unbuffered_close (fold unbuffered_step [U_recv 3, U_recv 4 :: nat unbuffered_op] unbuffered_construct))))
       = Return closed
   \<and> 2 \<in> fst ` set (parked_send (fold buffered_step [B_send 1 (5::nat), B_send 2 6] (buffered_construct 1)))
   \<and> ctl (buffered_send_resume 2 (fold buffered_step [B_try_send 9 0]
        (buffered_close (fold buffered_step [B_send 1 (5::nat), B_send 2 6] (buffered_construct 1)))))
       = Return closed
   \<and> items (buf (buffered_close (fold buffered_step [B_send 1 (5::nat), B_send 2 6] (buffered_construct 1))))
       = [5]
   \<and> \<not> unparked (frames (fold buffered_step [B_send 1 (5::nat), B_send 2 6] (buffered_construct 1)) 2)
   \<and> unparked (frames
        (buffered_close (fold buffered_step [B_send 1 (5::nat), B_send 2 6] (buffered_construct 1))) 2)
   \<and> 4 \<in> set (parked_recv (fold buffered_step [B_recv 3, B_recv 4 :: nat buffered_op] (buffered_construct 1)))
   \<and> ctl (buffered_recv_resume 4 (fold buffered_step []
        (buffered_close (fold buffered_step [B_recv 3, B_recv 4 :: nat buffered_op] (buffered_construct 1)))))
       = Return closed"
  using close_fails_parked_calls [of
      "fold unbuffered_step [U_send 1 (5::nat), U_send 2 6] unbuffered_construct" 1 "[U_try_recv 9]"
      "fold buffered_step [B_recv 3, B_recv 4] (buffered_construct 1)" "[]"]
    close_fails_parked_calls [of
      "fold unbuffered_step [U_recv 3, U_recv 4 :: nat unbuffered_op] unbuffered_construct" 3 "[]"
      "fold buffered_step [B_recv 3, B_recv 4] (buffered_construct 1)" "[]"]
    close_fails_parked_calls [of
      "fold unbuffered_step [U_recv 3, U_recv 4 :: nat unbuffered_op] unbuffered_construct" 2 "[]"
      "fold buffered_step [B_send 1 (5::nat), B_send 2 6] (buffered_construct 1)" "[B_try_send 9 0]"]
    close_fails_parked_calls [of
      "fold unbuffered_step [U_recv 3, U_recv 4 :: nat unbuffered_op] unbuffered_construct" 4 "[]"
      "fold buffered_step [B_recv 3, B_recv 4 :: nat buffered_op] (buffered_construct 1)" "[]"]
  by (simp add: channel_defs)

text \<open>
  C7 as stated does not hold for a caller that is not a coroutine: \<^verbatim>\<open>try_send\<close> on a
  plain thread returns \<^verbatim>\<open>failure\<close> (on a new unbuffered channel) or \<^verbatim>\<open>success\<close> (on a
  new buffered channel) and nothing yields.
\<close>

theorem try_on_plain_thread_no_yield:
  "ctl (unbuffered_try_send 1 (5::nat) unbuffered_construct) = Return failure
   \<and> yields_of None (trace (unbuffered_try_send 1 (5::nat) unbuffered_construct)) = []
   \<and> length (yields_of None (trace (unbuffered_try_send 1 (5::nat) unbuffered_construct))) \<noteq> 1
   \<and> ctl (buffered_try_send 1 (5::nat) (buffered_construct 1)) = Return success
   \<and> yields_of None (trace (buffered_try_send 1 (5::nat) (buffered_construct 1))) = []
   \<and> length (yields_of None (trace (buffered_try_send 1 (5::nat) (buffered_construct 1)))) \<noteq> 1"
  by code_simp

text \<open>
  C7, as the code has it. \<^verbatim>\<open>try_send\<close> and \<^verbatim>\<open>try_recv\<close> on either kind of channel
  never park. When the result is \<^verbatim>\<open>success\<close> or \<^verbatim>\<open>failure\<close> the events of the call
  are: lock, unlock, one call of \<^verbatim>\<open>mce::yield()\<close>, in this order; with it the calling
  coroutine \<open>c\<close> yields once, and on a thread that runs no coroutine nothing yields. The
  result is \<^verbatim>\<open>closed\<close> exactly when the channel is closed, and \<^verbatim>\<open>failure\<close> exactly
  when the channel is open and the call could not go on without blocking: no receiver
  is parked (\<^verbatim>\<open>try_send\<close>) or no sender is parked (\<^verbatim>\<open>try_recv\<close>) on an unbuffered
  channel, the buffer is full (\<^verbatim>\<open>try_send\<close>) or empty (\<^verbatim>\<open>try_recv\<close>) on a buffered
  one; these are the states in which the blocking call parks.
\<close>

theorem try_operations_call_yield_once:
  fixes u :: "'a unbuffered_channel_context" and b :: "'a buffered_channel_context"
  shows
  "ctl (unbuffered_try_send p v u) \<noteq> Park
   \<and> (ctl (unbuffered_try_send p v u) \<noteq> Return closed
        \<longrightarrow> trace (unbuffered_try_send p v u) = [Lock, Unlock, Yield]
          \<and> yields_of (Some c) (trace (unbuffered_try_send p v u)) = [c]
          \<and> yields_of None (trace (unbuffered_try_send p v u)) = [])
   \<and> (ctl (unbuffered_try_send p v u) = Return closed \<longleftrightarrow> unbuffered_closed u)
   \<and> (ctl (unbuffered_try_send p v u) = Return failure
        \<longleftrightarrow> \<not> unbuffered_closed u \<and> parked_recv u = [])
   \<and> (ctl (unbuffered_try_send p v u) = Return failure
        \<longleftrightarrow> \<not> unbuffered_closed u \<and> ctl (unbuffered_send' p v True u) = Park)
   \<and> ctl (unbuffered_try_recv p u) \<noteq> Park
   \<and> (ctl (unbuffered_try_recv p u) \<noteq> Return closed
        \<longrightarrow> trace (unbuffered_try_recv p u) = [Lock, Unlock, Yield]
          \<and> yields_of (Some c) (trace (unbuffered_try_recv p u)) = [c]
          \<and> yields_of None (trace (unbuffered_try_recv p u)) = [])
   \<and> (ctl (unbuffered_try_recv p u) = Return closed \<longleftrightarrow> unbuffered_closed u)
   \<and> (ctl (unbuffered_try_recv p u) = Return failure
        \<longleftrightarrow> \<not> unbuffered_closed u \<and> parked_send u = [])
   \<and> (ctl (unbuffered_try_recv p u) = Return failure
        \<longleftrightarrow> \<not> unbuffered_closed u \<and> ctl (unbuffered_recv p True u) = Park)
   \<and> ctl (buffered_try_send p v b) \<noteq> Park
   \<and> (ctl (buffered_try_send p v b) \<noteq> Return closed
        \<longrightarrow> trace (buffered_try_send p v b) = [Lock, Unlock, Yield]
          \<and> yields_of (Some c) (trace (buffered_try_send p v b)) = [c]
          \<and> yields_of None (trace (buffered_try_send p v b)) = [])
   \<and> (ctl (buffered_try_send p v b) = Return closed \<longleftrightarrow> buffered_closed b)
   \<and> (ctl (buffered_try_send p v b) = Return failure
        \<longleftrightarrow> \<not> buffered_closed b \<and> buffered_full b)
   \<and> (ctl (buffered_try_send p v b) = Return failure
        \<longleftrightarrow> \<not> buffered_closed b \<and> ctl (buffered_send' p v True b) = Park)
   \<and> ctl (buffered_try_recv p b) \<noteq> Park
   \<and> (ctl (buffered_try_recv p b) \<noteq> Return closed
        \<longrightarrow> trace (buffered_try_recv p b) = [Lock, Unlock, Yield]
          \<and> yields_of (Some c) (trace (buffered_try_recv p b)) = [c]
          \<and> yields_of None (trace (buffered_try_recv p b)) = [])
   \<and> (ctl (buffered_try_recv p b) = Return closed \<longleftrightarrow> buffered_closed b)
   \<and> (ctl (buffered_try_recv p b) = Return failure
        \<longleftrightarrow> \<not> buffered_closed b \<and> buffered_empty b)
   \<and> (ctl (buffered_try_recv p b) = Return failure
        \<longleftrightarrow> \<not> buffered_closed b \<and> ctl (buffered_recv p True b) = Park)"
proof -
  have y: "yields_of (Some c) [Lock, Unlock, Yield] = [c]" "yields_of None [Lock, Unlock, Yield] = []"
    by (simp_all add: yields_of_def yield_def)
  have 1: "ctl (unbuffered_try_send p v u) \<noteq> Park
   \<and> (ctl (unbuffered_try_send p v u) \<noteq> Return closed
        \<longrightarrow> trace (unbuffered_try_send p v u) = [Lock, Unlock, Yield])
   \<and> (ctl (unbuffered_try_send p v u) = Return closed \<longleftrightarrow> unbuffered_closed u)
   \<and> (ctl (unbuffered_try_send p v u) = Return failure
        \<longleftrightarrow> \<not> unbuffered_closed u \<and> parked_recv u = [])
   \<and> (ctl (unbuffered_try_send p v u) = Return failure
        \<longleftrightarrow> \<not> unbuffered_closed u \<and> ctl (unbuffered_send' p v True u) = Park)"
    by (simp add: unbuffered_try_send_def unbuffered_send'_def unbuffered_closed_def
        split: list.splits)
  have 2: "ctl (unbuffered_try_recv p u) \<noteq> Park
   \<and> (ctl (unbuffered_try_recv p u) \<noteq> Return closed
        \<longrightarrow> trace (unbuffered_try_recv p u) = [Lock, Unlock, Yield])
   \<and> (ctl (unbuffered_try_recv p u) = Return closed \<longleftrightarrow> unbuffered_closed u)
   \<and> (ctl (unbuffered_try_recv p u) = Return failure
        \<longleftrightarrow> \<not> unbuffered_closed u \<and> parked_send u = [])
   \<and> (ctl (unbuffered_try_recv p u) = Return failure
        \<longleftrightarrow> \<not> unbuffered_closed u \<and> ctl (unbuffered_recv p True u) = Park)"
    by (simp add: unbuffered_try_recv_def unbuffered_recv_def unbuffered_closed_def
        split: list.splits prod.splits)
  have 3: "ctl (buffered_try_send p v b) \<noteq> Park
   \<and> (ctl (buffered_try_send p v b) \<noteq> Return closed
        \<longrightarrow> trace (buffered_try_send p v b) = [Lock, Unlock, Yield])
   \<and> (ctl (buffered_try_send p v b) = Return closed \<longleftrightarrow> buffered_closed b)
   \<and> (ctl (buffered_try_send p v b) = Return failure
        \<longleftrightarrow> \<not> buffered_closed b \<and> buffered_full b)
   \<and> (ctl (buffered_try_send p v b) = Return failure
        \<longleftrightarrow> \<not> buffered_closed b \<and> ctl (buffered_send' p v True b) = Park)"
    by (simp add: buffered_try_send_def buffered_send'_def buffered_closed_def
        buffered_send_end_def buffered_full_def)
  have 4: "ctl (buffered_try_recv p b) \<noteq> Park
   \<and> (ctl (buffered_try_recv p b) \<noteq> Return closed
        \<longrightarrow> trace (buffered_try_recv p b) = [Lock, Unlock, Yield])
   \<and> (ctl (buffered_try_recv p b) = Return closed \<longleftrightarrow> buffered_closed b)
   \<and> (ctl (buffered_try_recv p b) = Return failure
        \<longleftrightarrow> \<not> buffered_closed b \<and> buffered_empty b)
   \<and> (ctl (buffered_try_recv p b) = Return failure
        \<longleftrightarrow> \<not> buffered_closed b \<and> ctl (buffered_recv p True b) = Park)"
    by (simp add: buffered_try_recv_def buffered_recv_def buffered_closed_def
        buffered_recv_end_def buffered_empty_def cb_empty_def split: list.splits)
  from 1 2 3 4 y show ?thesis by metis
qed

theorem try_operations_call_yield_once_witness:
  "ctl (unbuffered_try_send 1 (5::nat) unbuffered_construct) = Return failure
   \<and> trace (unbuffered_try_send 1 (5::nat) unbuffered_construct) = [Lock, Unlock, Yield]
   \<and> yields_of (Some 3) (trace (unbuffered_try_send 1 (5::nat) unbuffered_construct)) = [3]
   \<and> parked_recv (unbuffered_construct :: nat unbuffered_channel_context) = []
   \<and> ctl (unbuffered_try_recv 1 (unbuffered_step (U_send 2 (5::nat)) unbuffered_construct))
       = Return success
   \<and> trace (unbuffered_try_recv 1 (unbuffered_step (U_send 2 (5::nat)) unbuffered_construct))
       = [Lock, Unlock, Yield]
   \<and> ctl (buffered_try_send 1 (5::nat) (buffered_construct 1)) = Return success
   \<and> trace (buffered_try_send 1 (5::nat) (buffered_construct 1)) = [Lock, Unlock, Yield]
   \<and> ctl (buffered_try_send 2 (6::nat) (buffered_step (B_send 1 5) (buffered_construct 1)))
       = Return failure
   \<and> buffered_full (buffered_step (B_send 1 (5::nat)) (buffered_construct 1))
   \<and> ctl (buffered_try_recv 1 (buffered_construct 1 :: nat buffered_channel_context))
       = Return failure
   \<and> buffered_empty (buffered_construct 1 :: nat buffered_channel_context)
   \<and> trace (buffered_try_recv 1 (buffered_construct 1 :: nat buffered_channel_context))
       = [Lock, Unlock, Yield]
   \<and> ctl (buffered_try_recv 1
        (fold buffered_step [B_send 1 (5::nat), B_send 2 6] (buffered_construct 3)))
       = Return success"
  using try_operations_call_yield_once [of 1 "5::nat" unbuffered_construct 3 "buffered_construct 1"]
    try_operations_call_yield_once [of 1 "5::nat"
      "unbuffered_step (U_send 2 (5::nat)) unbuffered_construct" 3
      "fold buffered_step [B_send 1 (5::nat), B_send 2 6] (buffered_construct 3)"]
    try_operations_call_yield_once [of 2 "6::nat" unbuffered_construct 3
      "buffered_step (B_send 1 5) (buffered_construct 1)"]
  by code_simp

lemma buffered_step_closed:
  "closed_flag w \<Longrightarrow> closed_flag (buffered_step op w) \<and> buf (buffered_step op w) = buf w"
  by (cases op)
     (simp_all add: buffered_send'_def buffered_recv_def buffered_try_send_def
        buffered_try_recv_def buffered_close_def buffered_send_resume_def
        buffered_recv_resume_def buffered_send_end_def buffered_recv_end_def)

lemma buffered_fold_closed:
  "closed_flag w \<Longrightarrow>
     closed_flag (fold buffered_step ops w) \<and> buf (fold buffered_step ops w) = buf w"
proof (induction ops arbitrary: w)
  case Nil
  then show ?case by simp
next
  case (Cons op ops)
  from buffered_step_closed [OF Cons.prems, of op] Cons.IH [of "buffered_step op w"]
  show ?case by simp
qed

text \<open>
  C9. Once \<^verbatim>\<open>close()\<close> has been called on a buffered channel, whatever is called on
  it afterwards, the channel stays closed, the ring buffer keeps the values it held at the
  close, and \<^verbatim>\<open>recv\<close> and \<^verbatim>\<open>try_recv\<close> return \<^verbatim>\<open>closed\<close> (false for \<^verbatim>\<open>recv\<close>)
  without assigning \<^verbatim>\<open>r\<close>, changing the channel or yielding: their events are lock and
  unlock only.
\<close>

theorem buffered_recv_after_close:
  "closed_flag (fold buffered_step ops (buffered_close b))
   \<and> buf (fold buffered_step ops (buffered_close b)) = buf b
   \<and> buffered_recv p block (fold buffered_step ops (buffered_close b))
       = \<lparr> ctl = Return closed, received = None, trace = [Lock, Unlock],
           ctx = fold buffered_step ops (buffered_close b) \<rparr>
   \<and> buffered_try_recv p (fold buffered_step ops (buffered_close b))
       = \<lparr> ctl = Return closed, received = None, trace = [Lock, Unlock],
           ctx = fold buffered_step ops (buffered_close b) \<rparr>
   \<and> \<not> blocking_return closed"
proof -
  have c: "closed_flag (buffered_close b)" and b: "buf (buffered_close b) = buf b"
    by (simp_all add: buffered_close_def)
  from buffered_fold_closed [OF c, of ops] b show ?thesis
    by (simp add: buffered_recv_def buffered_try_recv_def blocking_return_def)
qed

theorem buffered_recv_after_close_witness:
  "items (buf (fold buffered_step [B_recv 7, B_send 8 3]
      (buffered_close (fold buffered_step [B_send 1 (5::nat), B_send 2 6] (buffered_construct 2)))))
     = [5, 6]
   \<and> ctl (buffered_recv 9 True (fold buffered_step [B_recv 7, B_send 8 3]
      (buffered_close (fold buffered_step [B_send 1 (5::nat), B_send 2 6] (buffered_construct 2)))))
     = Return closed
   \<and> trace (buffered_try_recv 9 (fold buffered_step [B_recv 7, B_send 8 3]
      (buffered_close (fold buffered_step [B_send 1 (5::nat), B_send 2 6] (buffered_construct 2)))))
     = [Lock, Unlock]"
  using buffered_recv_after_close [of "[B_recv 7, B_send 8 3]"
      "fold buffered_step [B_send 1 (5::nat), B_send 2 6] (buffered_construct 2)" 9 True]
  by (simp add: channel_defs)

subsection \<open>concurrent\<close>

lemma threadpool_make_workers: "workers_schedulers' (threadpool_make n hc alloc) \<noteq> []"
  by (simp add: threadpool_make_def Let_def)

text \<open>
  C1 as stated does not hold. Where the calling thread runs no scheduler,
  \<^verbatim>\<open>concurrent\<close> does not take the worker that \<^verbatim>\<open>threadpool::worker()\<close> selects:
  with a busy worker 0 and an idle worker 1, \<^verbatim>\<open>worker()\<close> selects worker 1 and
  \<^verbatim>\<open>concurrent\<close> enqueues on worker 0.
\<close>

theorem concurrent_not_least_loaded:
  "\<not> in_scheduler plain_thread
   \<and> map_option fst (worker (heap two_workers) (default_threadpool two_workers)) = Some 11
   \<and> concurrent_algorithm plain_thread two_workers = Some 10
   \<and> concurrent_algorithm plain_thread two_workers
       \<noteq> map_option fst (worker (heap two_workers) (default_threadpool two_workers))
   \<and> map_option (\<lambda>pr. task_queue' (heap pr 10))
        (concurrent plain_thread (Arg_callable (Completes [])) [] two_workers)
       = Some [Yields [] (Completes []), Completes []]
   \<and> map_option (\<lambda>pr. task_queue' (heap pr 11))
        (concurrent plain_thread (Arg_callable (Completes [])) [] two_workers)
       = Some []"
  by code_simp

text \<open>
  C1, as the code has it. \<^verbatim>\<open>concurrent\<close> schedules on the calling thread's scheduler
  (the redirected thread-local pointer) when the thread runs inside one, and otherwise on
  worker 0 of the default threadpool, whatever the loads of the workers; no other
  scheduler and nothing of the threadpool changes. The default threadpool is made by
  \<^verbatim>\<open>threadpool::make\<close>, so that it has a worker 0.
\<close>

theorem concurrent_target:
  assumes "workers_schedulers' (default_threadpool pr) \<noteq> []"
  shows "concurrent tls a as pr =
     Some (pr\<lparr> heap := (heap pr)
        ((case tl_this_scheduler_redirect tls of
            Some sch \<Rightarrow> sch
          | None \<Rightarrow> workers_schedulers' (default_threadpool pr) ! 0)
         := schedule a as (heap pr
              (case tl_this_scheduler_redirect tls of
                 Some sch \<Rightarrow> sch
               | None \<Rightarrow> workers_schedulers' (default_threadpool pr) ! 0))) \<rparr>)"
  using assms
  by (auto simp: concurrent_def concurrent_algorithm_def in_scheduler_def this_scheduler_def
      default_threadpool_scheduler_def worker_at_def split: option.splits)

theorem concurrent_target_witness:
  "workers_schedulers' (default_threadpool two_workers) \<noteq> []
   \<and> map_option (\<lambda>pr. task_queue' (heap pr 10))
        (concurrent plain_thread (Arg_callable (Completes [])) [] two_workers)
       = Some [Yields [] (Completes []), Completes []]
   \<and> map_option (\<lambda>pr. task_queue' (heap pr 11))
        (concurrent (plain_thread\<lparr> tl_this_scheduler := Some 11, tl_this_scheduler_redirect := Some 11 \<rparr>)
           (Arg_callable (Completes [])) [] two_workers)
       = Some [Completes []]"
proof -
  have h: "workers_schedulers' (default_threadpool two_workers) \<noteq> []"
    by (simp add: two_workers_def)
  show ?thesis
    using h concurrent_target [OF h, of plain_thread "Arg_callable (Completes [])" "[]"]
      concurrent_target [OF h, of
        "plain_thread\<lparr> tl_this_scheduler := Some 11, tl_this_scheduler_redirect := Some 11 \<rparr>"
        "Arg_callable (Completes [])" "[]"]
    by (simp add: two_workers_def plain_thread_def busy_scheduler_def idle_scheduler_def
        scheduler_make_def reset_flags'_def schedule_def schedule_coroutine'_def
        tasks_available_notify'_def)
qed

subsection \<open>await\<close>

text \<open>
  C8. \<^verbatim>\<open>await(f, a...)\<close> returns what \<open>f\<close> returns where it is run (0 when \<open>f\<close>
  returns void), and the program state is the one \<open>f\<close> leaves. When the caller is not
  inside a scheduler, or is already on an await worker, \<open>f\<close> is run on the calling thread
  with the caller's thread-local state and no await worker is checked out. Otherwise it
  is run on the worker that \<^verbatim>\<open>checkout_worker\<close> gives, where \<^verbatim>\<open>is_await()\<close> holds and
  \<^verbatim>\<open>this_scheduler()\<close> and \<^verbatim>\<open>this_threadpool()\<close> are the caller's.
\<close>

theorem await_returns_result:
  fixes cb :: "('s, 'r) callable" and vcb :: "('s, unit) callable"
  shows "\<exists>t l tp1.
      await_value tid tls fresh cb (st, tp) = (Some (fst (cb t l st)), snd (cb t l st), tp1)
      \<and> await_void tid tls fresh vcb (st, tp) = (0, snd (vcb t l st), tp1)
      \<and> (\<not> in_scheduler tls \<or> is_await tls \<longrightarrow> t = tid \<and> l = tls \<and> tp1 = tp)
      \<and> (in_scheduler tls \<and> \<not> is_await tls \<longrightarrow>
           t = fst (checkout_worker fresh tp) \<and> is_await l
           \<and> this_scheduler l = this_scheduler tls \<and> this_threadpool l = this_threadpool tls)"
proof (cases "in_scheduler tls \<and> \<not> tl_is_await tls")
  case True
  obtain w tp1 where c: "checkout_worker fresh tp = (w, tp1)"
    by (cases "checkout_worker fresh tp")
  show ?thesis
    apply (rule exI [of _ w])
    apply (rule exI [of _ "await_worker_locals w tls"])
    apply (rule exI [of _ "checkin_worker w tp1"])
    using True c
    by (simp add: await_value_def await_void_def await_schedule_def is_await_def
        await_worker_locals_def this_scheduler_def this_threadpool_def in_threadpool_def)
next
  case False
  show ?thesis
    apply (rule exI [of _ tid])
    apply (rule exI [of _ tls])
    apply (rule exI [of _ tp])
    using False
    by (auto simp add: await_value_def await_void_def await_schedule_def is_await_def)
qed

theorem await_returns_result_witness:
  "\<not> in_scheduler plain_thread
   \<and> await_value 7 plain_thread 60 (\<lambda>t l s. (s + t, Suc s)) (5, await_pool)
       = (Some 12, 6, await_pool)
   \<and> await_void 7 plain_thread 60 (\<lambda>t l s. ((), s + t)) (5, await_pool) = (0, 12, await_pool)
   \<and> is_await (plain_thread\<lparr> tl_this_scheduler := Some 50,
           tl_this_scheduler_redirect := Some 10, tl_is_await := True \<rparr>)
   \<and> await_value 50 (plain_thread\<lparr> tl_this_scheduler := Some 50,
           tl_this_scheduler_redirect := Some 10, tl_is_await := True \<rparr>) 60
         (\<lambda>t l s. (s + t, Suc s)) (5, await_pool\<lparr> workers' := [] \<rparr>)
       = (Some 55, 6, await_pool\<lparr> workers' := [] \<rparr>)
   \<and> await_value 7 (plain_thread\<lparr> tl_this_scheduler := Some 10,
           tl_this_scheduler_redirect := Some 10 \<rparr>) 60
         (\<lambda>t l s. (s + t, Suc s)) (5, await_pool)
       = (Some 55, 6, await_pool)"
  using await_returns_result [of 7 plain_thread 60 "\<lambda>t l s. (s + t, Suc s)" 5 await_pool
      "\<lambda>t l s. ((), s + t)"]
  by (simp add: await_value_def await_void_def await_schedule_def in_scheduler_def
      is_await_def plain_thread_def await_pool_def checkout_worker_def checkin_worker_def
      await_worker_locals_def)

end
